theory Spec2Isabelle
  imports Main "HOL-Library.Sublist"
begin

section \<open>Go slices over an explicit store\<close>

text \<open>
  The editor of \<^verbatim>\<open>file-editor/main.go\<close> keeps its lines in a Go slice and edits it with
  \<^verbatim>\<open>append\<close>, \<^verbatim>\<open>copy\<close>, slice expressions and indexed assignment. A Go slice is a
  window (pointer, length, capacity) onto a backing array that other slices may share, and
  \<^verbatim>\<open>append\<close> writes into that array in place whenever the capacity suffices. The store
  below holds the backing arrays; an address is an index into it, and allocation adds an
  array at the end, so a fresh address is never one already in use.
\<close>

type_synonym heap = "string list list"

record slice =
  s_arr :: nat
  s_off :: nat
  s_len :: nat
  s_cap :: nat

text \<open>The elements visible through a slice: \<^verbatim>\<open>s[0], ..., s[len(s)-1]\<close>.\<close>

definition slice_val :: "heap \<Rightarrow> slice \<Rightarrow> string list" where
  "slice_val h s = take (s_len s) (drop (s_off s) (h ! s_arr s))"

text \<open>
  A slice is well formed in a store when its array is allocated, its capacity window lies
  inside the array and its length does not exceed its capacity. The Go runtime keeps this
  true of every slice value.
\<close>

definition wf_slice :: "heap \<Rightarrow> slice \<Rightarrow> bool" where
  "wf_slice h s \<longleftrightarrow>
     s_arr s < length h \<and> s_off s + s_cap s \<le> length (h ! s_arr s) \<and> s_len s \<le> s_cap s"

text \<open>
  The slice expression \<^verbatim>\<open>s[low:high]\<close>. Go panics unless
  \<^verbatim>\<open>0 <= low <= high <= cap(s)\<close>; the panic is the value \<open>None\<close>.
\<close>

definition slice_expr :: "slice \<Rightarrow> nat \<Rightarrow> nat \<Rightarrow> slice option" where
  "slice_expr s low high =
     (if low \<le> high \<and> high \<le> s_cap s
      then Some \<lparr>s_arr = s_arr s, s_off = s_off s + low, s_len = high - low, s_cap = s_cap s - low\<rparr>
      else None)"

text \<open>Writing a run of values into an array from index \<open>i\<close> on, as \<^verbatim>\<open>memmove\<close> does.\<close>

definition write_at :: "string list \<Rightarrow> nat \<Rightarrow> string list \<Rightarrow> string list" where
  "write_at arr i vs = take i arr @ vs @ drop (i + length vs) arr"

text \<open>A composite literal \<^verbatim>\<open>[]string{v1, ..., vn}\<close>: a new array holding exactly the values.\<close>

definition slice_lit :: "heap \<Rightarrow> string list \<Rightarrow> heap \<times> slice" where
  "slice_lit h vs =
     (h @ [vs], \<lparr>s_arr = length h, s_off = 0, s_len = length vs, s_cap = length vs\<rparr>)"

text \<open>\<^verbatim>\<open>make([]string, n)\<close>: a new array of \<open>n\<close> empty strings, length and capacity \<open>n\<close>.\<close>

definition go_make :: "heap \<Rightarrow> nat \<Rightarrow> heap \<times> slice" where
  "go_make h n = slice_lit h (replicate n [])"

text \<open>
  \<^verbatim>\<open>copy(dst, src)\<close> copies \<^verbatim>\<open>min(len(dst), len(src))\<close> elements into the array of
  \<open>dst\<close>. The argument \<open>vs\<close> is the value of \<open>src\<close>, read before anything is written.
\<close>

definition go_copy :: "heap \<Rightarrow> slice \<Rightarrow> string list \<Rightarrow> heap" where
  "go_copy h dst vs =
     h[s_arr dst := write_at (h ! s_arr dst) (s_off dst) (take (s_len dst) vs)]"

text \<open>
  \<^verbatim>\<open>append(s, vs...)\<close>. When the capacity of \<open>s\<close> suffices, the values are written into
  the array of \<open>s\<close> behind its last element and the result shares that array. Otherwise a
  larger array is allocated and receives the old elements followed by the new ones. How
  much larger is left to the runtime by the language definition: the policy is the
  parameter \<open>g\<close> (old capacity and needed length to new capacity), raised to the needed
  length where it would answer less.
\<close>

type_synonym growth = "nat \<Rightarrow> nat \<Rightarrow> nat"

definition go_append :: "growth \<Rightarrow> heap \<Rightarrow> slice \<Rightarrow> string list \<Rightarrow> heap \<times> slice" where
  "go_append g h s vs =
     (let need = s_len s + length vs in
      if need \<le> s_cap s
      then (h[s_arr s := write_at (h ! s_arr s) (s_off s + s_len s) vs], s\<lparr>s_len := need\<rparr>)
      else
        (let c = max need (g (s_cap s) need) in
         (h @ [slice_val h s @ vs @ replicate (c - need) []],
          \<lparr>s_arr = length h, s_off = 0, s_len = need, s_cap = c\<rparr>)))"

text \<open>The indexed assignment \<^verbatim>\<open>s[i] = v\<close>; Go panics unless \<^verbatim>\<open>0 <= i < len(s)\<close>.\<close>

definition slice_store :: "heap \<Rightarrow> slice \<Rightarrow> nat \<Rightarrow> string \<Rightarrow> heap option" where
  "slice_store h s i v =
     (if i < s_len s then Some (h[s_arr s := (h ! s_arr s)[s_off s + i := v]]) else None)"

section \<open>The editor\<close>

text \<open>
  \<^verbatim>\<open>type FileEditor struct { filename string; lines []string; modified bool }\<close>.
  The methods have a pointer receiver and mutate the struct and the arrays behind
  \<open>lines\<close>: a method is a function from the store and the struct to a result and the
  new store and struct. A returned Go error is \<open>Inl\<close>; the state that comes with it is
  the state the method leaves behind.
\<close>

record FileEditor =
  filename :: string
  lines :: slice
  modified :: bool

text \<open>
  The errors of the program, one constructor per \<^verbatim>\<open>fmt.Errorf\<close> message and per message of
  the command loop. \<open>InvalidLineNumber\<close> is the specification's InvalidPosition,
  \<open>InvalidLineRange\<close> its InvalidRange, \<open>InvalidRegexPattern\<close> its InvalidPattern, the four
  file errors its IOError. \<open>Panic\<close> is a run-time panic of a slice expression or an index.
\<close>

datatype error =
    InvalidLineNumber int
  | InvalidLineRange int int
  | InvalidRegexPattern
  | CannotOpenFile
  | ErrorReadingFile
  | CannotCreateFile
  | ErrorWritingLine
  | ErrorFlushingWriter
  | ClipboardEmpty
  | Panic

type_synonym state = "heap \<times> FileEditor"

text \<open>The line sequence of the buffer, and the state invariant.\<close>

definition lines_of :: "state \<Rightarrow> string list" where
  "lines_of st = slice_val (fst st) (lines (snd st))"

definition wf_state :: "state \<Rightarrow> bool" where
  "wf_state st \<longleftrightarrow> wf_slice (fst st) (lines (snd st))"

text \<open>
  \<^verbatim>\<open>insertLine\<close>: \<^verbatim>\<open>fe.lines = append(fe.lines[:index], append([]string{text}, fe.lines[index:]...)...)\<close>.
  Line numbers are Go \<^verbatim>\<open>int\<close>s; lengths are far below the 64-bit range, so the integers
  are unbounded here.
\<close>

definition insertLine :: "growth \<Rightarrow> int \<Rightarrow> string \<Rightarrow> state \<Rightarrow> (error + unit) \<times> state" where
  "insertLine g lineNum text st =
     (case st of (h, fe) \<Rightarrow>
        if lineNum < 1 \<or> lineNum > int (s_len (lines fe)) + 1
        then (Inl (InvalidLineNumber lineNum), st)
        else
          (let index = nat (lineNum - 1) in
           case (slice_expr (lines fe) 0 index,
                 slice_expr (lines fe) index (s_len (lines fe))) of
             (Some front, Some back) \<Rightarrow>
               (let (h1, one) = slice_lit h [text];
                    (h2, inner) = go_append g h1 one (slice_val h1 back);
                    (h3, res) = go_append g h2 front (slice_val h2 inner)
                in (Inr (), (h3, fe\<lparr>lines := res, modified := True\<rparr>)))
           | _ \<Rightarrow> (Inl Panic, st)))"

text \<open>\<^verbatim>\<open>deleteLine\<close>: \<^verbatim>\<open>fe.lines = append(fe.lines[:index], fe.lines[index+1:]...)\<close>.\<close>

definition deleteLine :: "growth \<Rightarrow> int \<Rightarrow> state \<Rightarrow> (error + unit) \<times> state" where
  "deleteLine g lineNum st =
     (case st of (h, fe) \<Rightarrow>
        if lineNum < 1 \<or> lineNum > int (s_len (lines fe))
        then (Inl (InvalidLineNumber lineNum), st)
        else
          (let index = nat (lineNum - 1) in
           case (slice_expr (lines fe) 0 index,
                 slice_expr (lines fe) (index + 1) (s_len (lines fe))) of
             (Some front, Some back) \<Rightarrow>
               (let (h1, res) = go_append g h front (slice_val h back)
                in (Inr (), (h1, fe\<lparr>lines := res, modified := True\<rparr>)))
           | _ \<Rightarrow> (Inl Panic, st)))"

text \<open>\<^verbatim>\<open>replaceLine\<close>: \<^verbatim>\<open>fe.lines[lineNum-1] = text\<close>.\<close>

definition replaceLine :: "int \<Rightarrow> string \<Rightarrow> state \<Rightarrow> (error + unit) \<times> state" where
  "replaceLine lineNum text st =
     (case st of (h, fe) \<Rightarrow>
        if lineNum < 1 \<or> lineNum > int (s_len (lines fe))
        then (Inl (InvalidLineNumber lineNum), st)
        else
          (case slice_store h (lines fe) (nat (lineNum - 1)) text of
             Some h1 \<Rightarrow> (Inr (), (h1, fe\<lparr>modified := True\<rparr>))
           | None \<Rightarrow> (Inl Panic, st)))"

text \<open>\<^verbatim>\<open>appendLine\<close>: \<^verbatim>\<open>fe.lines = append(fe.lines, text)\<close>; it has no error result.\<close>

definition appendLine :: "growth \<Rightarrow> string \<Rightarrow> state \<Rightarrow> state" where
  "appendLine g text st =
     (case st of (h, fe) \<Rightarrow>
        (let (h1, res) = go_append g h (lines fe) [text]
         in (h1, fe\<lparr>lines := res, modified := True\<rparr>)))"

text \<open>
  \<^verbatim>\<open>copyLines\<close>: \<^verbatim>\<open>copied := make([]string, end-start+1); copy(copied, fe.lines[start-1:end])\<close>.
  The result is the new slice; the struct is not assigned to.
\<close>

definition copyLines :: "int \<Rightarrow> int \<Rightarrow> state \<Rightarrow> (error + slice) \<times> state" where
  "copyLines start end st =
     (case st of (h, fe) \<Rightarrow>
        (let n = int (s_len (lines fe)) in
         if start < 1 \<or> end < 1 \<or> start > n \<or> end > n \<or> start > end
         then (Inl (InvalidLineRange start end), st)
         else
           (let (h1, copied) = go_make h (nat (end - start + 1)) in
            case slice_expr (lines fe) (nat (start - 1)) (nat end) of
              Some src \<Rightarrow> (Inr copied, (go_copy h1 copied (slice_val h1 src), fe))
            | None \<Rightarrow> (Inl Panic, st))))"

text \<open>
  \<^verbatim>\<open>pasteLines\<close>: \<^verbatim>\<open>fe.lines = append(fe.lines[:index], append(lines, fe.lines[index:]...)...)\<close>.
  The inner \<^verbatim>\<open>append\<close> has the caller's slice as its first argument, and writes behind it
  in the caller's array when that slice has spare capacity.
\<close>

definition pasteLines :: "growth \<Rightarrow> int \<Rightarrow> slice \<Rightarrow> state \<Rightarrow> (error + unit) \<times> state" where
  "pasteLines g lineNum block st =
     (case st of (h, fe) \<Rightarrow>
        if lineNum < 1 \<or> lineNum > int (s_len (lines fe)) + 1
        then (Inl (InvalidLineNumber lineNum), st)
        else
          (let index = nat (lineNum - 1) in
           case (slice_expr (lines fe) 0 index,
                 slice_expr (lines fe) index (s_len (lines fe))) of
             (Some front, Some back) \<Rightarrow>
               (let (h1, inner) = go_append g h block (slice_val h back);
                    (h2, res) = go_append g h1 front (slice_val h1 inner)
                in (Inr (), (h2, fe\<lparr>lines := res, modified := True\<rparr>)))
           | _ \<Rightarrow> (Inl Panic, st)))"

section \<open>Search and substitution\<close>

text \<open>
  The program uses Go's \<^verbatim>\<open>regexp\<close> package through three functions:
  \<^verbatim>\<open>regexp.Compile\<close>, \<^verbatim>\<open>(*Regexp).MatchString\<close> and \<^verbatim>\<open>(*Regexp).ReplaceAllString\<close>.
  The package is not part of the repository, so the editor is modelled over any
  implementation of the three: \<open>Compile\<close> answers \<open>None\<close> where Go returns an error,
  \<open>MatchString re s\<close> says whether \<open>s\<close> contains a match of \<open>re\<close>, and
  \<open>ReplaceAllString re src repl\<close> is \<open>src\<close> with the matches replaced.
\<close>

record 'r regexp_pkg =
  Compile :: "string \<Rightarrow> 'r option"
  MatchString :: "'r \<Rightarrow> string \<Rightarrow> bool"
  ReplaceAllString :: "'r \<Rightarrow> string \<Rightarrow> string \<Rightarrow> string"

text \<open>
  The loop of \<^verbatim>\<open>searchAndReplace\<close>, \<^verbatim>\<open>for i, line := range fe.lines\<close>, from index \<open>i\<close>
  on. The range expression is evaluated once, so the slice header \<open>s\<close> is fixed; each
  iteration reads element \<open>i\<close> from the array as it is then, and \<^verbatim>\<open>fe.lines[i] = ...\<close>
  writes into the same array. The index stays below the length, so neither access can
  panic. In the branch for a single substitution the loop ends at the first match
  (\<^verbatim>\<open>break\<close>).
\<close>

function replace_loop ::
  "'r regexp_pkg \<Rightarrow> 'r \<Rightarrow> string \<Rightarrow> bool \<Rightarrow> slice \<Rightarrow> nat \<Rightarrow> heap \<Rightarrow> nat \<Rightarrow> heap \<times> nat" where
  "replace_loop R re replacement global s i h count =
     (if i < s_len s then
        (let line = (h ! s_arr s) ! (s_off s + i) in
         if global then
           (let newLine = ReplaceAllString R re line replacement in
            if newLine \<noteq> line
            then replace_loop R re replacement global s (i + 1)
                   (h[s_arr s := (h ! s_arr s)[s_off s + i := newLine]]) (count + 1)
            else replace_loop R re replacement global s (i + 1) h count)
         else
           (if MatchString R re line
            then (h[s_arr s := (h ! s_arr s)[s_off s + i := ReplaceAllString R re line replacement]],
                  count + 1)
            else replace_loop R re replacement global s (i + 1) h count))
      else (h, count))"
  by pat_completeness auto
termination
  by (relation "measure (\<lambda>(R, re, replacement, global, s, i, h, count). s_len s - i)") auto

text \<open>
  \<^verbatim>\<open>searchAndReplace\<close>. The Go method returns only the error; the counter \<open>count\<close> is a
  local variable that reaches the outside through the log line
  \<^verbatim>\<open>"INFO: Replaced %d occurrences"\<close>. The model returns it as the result of a successful
  call, so that it can be spoken about.
\<close>

definition searchAndReplace ::
  "'r regexp_pkg \<Rightarrow> string \<Rightarrow> string \<Rightarrow> bool \<Rightarrow> state \<Rightarrow> (error + nat) \<times> state" where
  "searchAndReplace R pattern replacement global st =
     (case st of (h, fe) \<Rightarrow>
        (case Compile R pattern of
           None \<Rightarrow> (Inl InvalidRegexPattern, st)
         | Some re \<Rightarrow>
             (let (h1, count) = replace_loop R re replacement global (lines fe) 0 h 0
              in (Inr count, (h1, if count > 0 then fe\<lparr>modified := True\<rparr> else fe)))))"

text \<open>
  The loop of \<^verbatim>\<open>search\<close>: \<^verbatim>\<open>matches = append(matches, i+1)\<close> for every matching line. The
  slice of integers is local to the call and is returned; it is a list here.
\<close>

function search_loop ::
  "'r regexp_pkg \<Rightarrow> 'r \<Rightarrow> heap \<Rightarrow> slice \<Rightarrow> nat \<Rightarrow> int list \<Rightarrow> int list" where
  "search_loop R re h s i matches =
     (if i < s_len s then
        (if MatchString R re ((h ! s_arr s) ! (s_off s + i))
         then search_loop R re h s (i + 1) (matches @ [int i + 1])
         else search_loop R re h s (i + 1) matches)
      else matches)"
  by pat_completeness auto
termination
  by (relation "measure (\<lambda>(R, re, h, s, i, matches). s_len s - i)") auto

definition search :: "'r regexp_pkg \<Rightarrow> string \<Rightarrow> state \<Rightarrow> (error + int list) \<times> state" where
  "search R pattern st =
     (case st of (h, fe) \<Rightarrow>
        (case Compile R pattern of
           None \<Rightarrow> (Inl InvalidRegexPattern, st)
         | Some re \<Rightarrow> (Inr (search_loop R re h (lines fe) 0 []), st)))"

text \<open>
  The same substitution on a list of lines, without the store: what the loop is shown to
  compute on the line sequence. It gives the new lines and the counter.
\<close>

fun subst_lines ::
  "'r regexp_pkg \<Rightarrow> 'r \<Rightarrow> string \<Rightarrow> bool \<Rightarrow> string list \<Rightarrow> string list \<times> nat" where
  "subst_lines R re replacement global [] = ([], 0)"
| "subst_lines R re replacement global (line # rest) =
     (if global then
        (let newLine = ReplaceAllString R re line replacement;
             (rest', n) = subst_lines R re replacement global rest
         in if newLine \<noteq> line then (newLine # rest', n + 1) else (line # rest', n))
      else
        (if MatchString R re line
         then (ReplaceAllString R re line replacement # rest, 1)
         else (let (rest', n) = subst_lines R re replacement global rest in (line # rest', n))))"

subsection \<open>Literal patterns\<close>

text \<open>
  Go's \<^verbatim>\<open>regexp\<close> on the fragment used in the examples: a pattern of printable ASCII
  characters none of which is a metacharacter matches exactly its own occurrences, and a
  replacement without \<^verbatim>\<open>$\<close> is inserted as it is. \<open>MatchString\<close> is then substring search
  and \<open>ReplaceAllString\<close> replaces the leftmost occurrences that do not overlap; the empty
  pattern matches before every character and at the end (on ASCII text, where a character
  is a byte). Patterns outside the fragment are rejected by this instance, which is what
  Go does for \<^verbatim>\<open>(\<close> (a missing closing parenthesis), the one such pattern used below;
  about the other patterns with a metacharacter, many of which Go compiles, and about
  replacements with \<^verbatim>\<open>$\<close>, which Go expands, the instance says nothing.
\<close>

definition regexp_meta :: "char list" where
  "regexp_meta = [CHR 0x5C, CHR ''.'', CHR ''+'', CHR ''*'', CHR ''?'', CHR ''('', CHR '')'',
     CHR ''|'', CHR ''['', CHR '']'', CHR ''{'', CHR ''}'', CHR ''^'', CHR ''$'']"

definition plain_char :: "char \<Rightarrow> bool" where
  "plain_char c \<longleftrightarrow> (32::nat) \<le> of_char c \<and> (of_char c :: nat) \<le> 126 \<and> c \<notin> set regexp_meta"

definition literal_compile :: "string \<Rightarrow> string option" where
  "literal_compile p = (if list_all plain_char p then Some p else None)"

fun literal_match :: "string \<Rightarrow> string \<Rightarrow> bool" where
  "literal_match p [] = (p = [])"
| "literal_match p (c # cs) = (prefix p (c # cs) \<or> literal_match p cs)"

function literal_replace_all :: "string \<Rightarrow> string \<Rightarrow> string \<Rightarrow> string" where
  "literal_replace_all p [] repl = (if p = [] then repl else [])"
| "literal_replace_all p (c # cs) repl =
     (if p = [] then repl @ c # literal_replace_all p cs repl
      else if prefix p (c # cs) then repl @ literal_replace_all p (drop (length p - 1) cs) repl
      else c # literal_replace_all p cs repl)"
  by pat_completeness auto
termination
  by (relation "measure (\<lambda>(p, src, repl). length src)") auto

definition literal_regexp :: "string regexp_pkg" where
  "literal_regexp =
     \<lparr>Compile = literal_compile, MatchString = literal_match, ReplaceAllString = literal_replace_all\<rparr>"

section \<open>Files\<close>

text \<open>
  The program reaches the file system through \<^verbatim>\<open>os.Stat\<close>, \<^verbatim>\<open>os.Open\<close>, \<^verbatim>\<open>os.Create\<close>,
  a \<^verbatim>\<open>bufio.Scanner\<close> and a \<^verbatim>\<open>bufio.Writer\<close>. The file system is a map from names to
  files with their contents and permissions, a predicate saying where a new file may be
  created, and the number of bytes a file may hold before the device refuses a write.
\<close>

record osfile =
  content :: string
  readable :: bool
  writable :: bool

record fsys =
  files :: "string \<Rightarrow> osfile option"
  creatable :: "string \<Rightarrow> bool"
  quota :: nat

text \<open>\<^verbatim>\<open>os.Open\<close>: the contents of a readable file.\<close>

definition os_open :: "fsys \<Rightarrow> string \<Rightarrow> string option" where
  "os_open fs name =
     (case files fs name of
        None \<Rightarrow> None
      | Some f \<Rightarrow> if readable f then Some (content f) else None)"

text \<open>\<^verbatim>\<open>os.Create\<close>: truncates a writable file, or creates an empty one where that is allowed.\<close>

definition os_create :: "fsys \<Rightarrow> string \<Rightarrow> fsys option" where
  "os_create fs name =
     (case files fs name of
        None \<Rightarrow>
          if creatable fs name
          then Some (fs\<lparr>files := (files fs)(name \<mapsto> \<lparr>content = [], readable = True, writable = True\<rparr>)\<rparr>)
          else None
      | Some f \<Rightarrow>
          if writable f then Some (fs\<lparr>files := (files fs)(name \<mapsto> f\<lparr>content := []\<rparr>)\<rparr>) else None)"

text \<open>
  A write to the open file: the bytes are added at the end; when they do not fit, the
  part that fits is written and the write fails (\<open>False\<close>).
\<close>

definition file_write :: "fsys \<Rightarrow> string \<Rightarrow> string \<Rightarrow> fsys \<times> bool" where
  "file_write fs name bytes =
     (case files fs name of
        None \<Rightarrow> (fs, False)
      | Some f \<Rightarrow>
          (let room = quota fs - length (content f) in
           (fs\<lparr>files := (files fs)(name \<mapsto> f\<lparr>content := content f @ take room bytes\<rparr>)\<rparr>,
            length bytes \<le> room)))"

text \<open>
  \<^verbatim>\<open>bufio.Writer\<close> with its default buffer of 4096 bytes; the state of the writer is the
  file system and the bytes pending in the buffer. \<^verbatim>\<open>WriteString\<close> runs the library's
  loop \<^verbatim>\<open>for len(s) > b.Available() && b.err == nil\<close>: a string that fits the free part
  of the buffer is copied into it and nothing is written. A string that does not fit goes
  to the file directly when the buffer is empty (\<^verbatim>\<open>*os.File\<close> is an
  \<^verbatim>\<open>io.StringWriter\<close>); otherwise the buffer is filled up from the string and flushed, and
  the loop goes on with the rest of the string. A failed write ends the call with the
  error. \<^verbatim>\<open>Flush\<close> writes what is pending.
\<close>

definition defaultBufSize :: nat where
  "defaultBufSize = 4096"

function WriteString :: "string \<Rightarrow> string \<Rightarrow> fsys \<times> string \<Rightarrow> (fsys \<times> string) \<times> bool" where
  "WriteString name str (fs, pending) =
     (if length str \<le> defaultBufSize - length pending then ((fs, pending @ str), True)
      else if pending = [] then
        (case file_write fs name str of (fs1, ok) \<Rightarrow> ((fs1, []), ok))
      else
        (case file_write fs name (pending @ take (defaultBufSize - length pending) str) of
           (fs1, True) \<Rightarrow> WriteString name (drop (defaultBufSize - length pending) str) (fs1, [])
         | (fs1, False) \<Rightarrow> ((fs1, []), False)))"
  by pat_completeness auto
termination
  by (relation "measure (\<lambda>(name, str, fs, pending). length pending)") auto

definition Flush :: "string \<Rightarrow> fsys \<times> string \<Rightarrow> (fsys \<times> string) \<times> bool" where
  "Flush name w =
     (case w of (fs, pending) \<Rightarrow>
        (let (fs1, ok) = file_write fs name pending in ((fs1, []), ok)))"

text \<open>
  The loop of \<^verbatim>\<open>save\<close>, \<^verbatim>\<open>for _, line := range fe.lines\<close>, which writes
  \<^verbatim>\<open>line + "\n"\<close> and returns at the first failed write. The loop does not write to the
  store, so it runs over the lines as they are when it starts.
\<close>

fun write_lines :: "string \<Rightarrow> string list \<Rightarrow> fsys \<times> string \<Rightarrow> (fsys \<times> string) \<times> bool" where
  "write_lines name [] w = (w, True)"
| "write_lines name (line # rest) w =
     (case WriteString name (line @ [CHR 0x0A]) w of
        (w1, True) \<Rightarrow> write_lines name rest w1
      | (w1, False) \<Rightarrow> (w1, False))"

text \<open>
  \<^verbatim>\<open>save\<close>. Every error return comes before \<^verbatim>\<open>fe.modified = false\<close>. The result carries
  the file system as the call leaves it.
\<close>

definition save :: "fsys \<Rightarrow> state \<Rightarrow> (error + unit) \<times> fsys \<times> state" where
  "save fs st =
     (case st of (h, fe) \<Rightarrow>
        (case os_create fs (filename fe) of
           None \<Rightarrow> (Inl CannotCreateFile, fs, st)
         | Some fs1 \<Rightarrow>
             (case write_lines (filename fe) (slice_val h (lines fe)) (fs1, []) of
                (w1, False) \<Rightarrow> (Inl ErrorWritingLine, fst w1, st)
              | (w1, True) \<Rightarrow>
                  (case Flush (filename fe) w1 of
                     (w2, False) \<Rightarrow> (Inl ErrorFlushingWriter, fst w2, st)
                   | (w2, True) \<Rightarrow> (Inr (), fst w2, (h, fe\<lparr>modified := False\<rparr>))))))"

text \<open>
  \<^verbatim>\<open>bufio.Scanner\<close> with its default split function \<^verbatim>\<open>bufio.ScanLines\<close>: a token is the
  text up to the next newline, without the newline and without one carriage return before
  it; the last line counts also without a newline, unless it is empty. The scanner's buffer
  grows to \<^verbatim>\<open>bufio.MaxScanTokenSize\<close> bytes and no further: a line that does not fit it
  together with its newline stops the scan with \<^verbatim>\<open>bufio.ErrTooLong\<close>. The result is the
  tokens delivered and whether the scan ended without error.
\<close>

definition MaxScanTokenSize :: nat where
  "MaxScanTokenSize = 64 * 1024"

definition dropCR :: "string \<Rightarrow> string" where
  "dropCR bytes = (if bytes \<noteq> [] \<and> last bytes = CHR 0x0D then butlast bytes else bytes)"

function scan_lines :: "string \<Rightarrow> string list \<times> bool" where
  "scan_lines bytes =
     (if bytes = [] then ([], True)
      else
        (let line = takeWhile (\<lambda>c. c \<noteq> CHR 0x0A) bytes;
             rest = dropWhile (\<lambda>c. c \<noteq> CHR 0x0A) bytes
         in if length line < MaxScanTokenSize
            then (if rest = [] then ([dropCR line], True)
                  else (let (tokens, ok) = scan_lines (tl rest) in (dropCR line # tokens, ok)))
            else ([], False)))"
  by pat_completeness auto
termination
proof (relation "measure length")
  show "wf (measure length)" by simp
next
  fix bytes :: string and line rest
  assume "bytes \<noteq> []" and "rest = dropWhile (\<lambda>c. c \<noteq> CHR 0x0A) bytes" and "rest \<noteq> []"
  then have "length (tl rest) < length rest" by simp
  moreover have "length rest \<le> length bytes"
    using \<open>rest = dropWhile (\<lambda>c. c \<noteq> CHR 0x0A) bytes\<close> by (simp add: length_dropWhile_le)
  ultimately show "(tl rest, bytes) \<in> measure length" by simp
qed

text \<open>The loop of \<^verbatim>\<open>loadFile\<close>: \<^verbatim>\<open>fe.lines = append(fe.lines, scanner.Text())\<close> for every token.\<close>

fun append_all :: "growth \<Rightarrow> string list \<Rightarrow> heap \<times> slice \<Rightarrow> heap \<times> slice" where
  "append_all g [] hs = hs"
| "append_all g (token # rest) hs =
     (case hs of (h, s) \<Rightarrow> append_all g rest (go_append g h s [token]))"

text \<open>
  \<^verbatim>\<open>loadFile\<close>. A file that does not exist is not an error: the method returns with the
  editor as it is. After a failed scan the lines read so far stay in the editor.
\<close>

definition loadFile :: "growth \<Rightarrow> fsys \<Rightarrow> state \<Rightarrow> (error + unit) \<times> state" where
  "loadFile g fs st =
     (case st of (h, fe) \<Rightarrow>
        if files fs (filename fe) = None then (Inr (), st)
        else
          (case os_open fs (filename fe) of
             None \<Rightarrow> (Inl CannotOpenFile, st)
           | Some bytes \<Rightarrow>
               (let (tokens, ok) = scan_lines bytes;
                    (h1, s1) = append_all g tokens (h, lines fe);
                    st1 = (h1, fe\<lparr>lines := s1\<rparr>)
                in if ok then (Inr (), st1) else (Inl ErrorReadingFile, st1))))"

text \<open>
  \<^verbatim>\<open>NewFileEditor\<close>: the struct with \<^verbatim>\<open>lines: []string{}\<close> and \<^verbatim>\<open>modified: false\<close>, then
  \<^verbatim>\<open>loadFile\<close>; its error is the constructor's error, and no editor is returned with it.
\<close>

definition NewFileEditor :: "growth \<Rightarrow> fsys \<Rightarrow> heap \<Rightarrow> string \<Rightarrow> error + state" where
  "NewFileEditor g fs h name =
     (let (h0, s0) = slice_lit h [];
          editor = \<lparr>filename = name, lines = s0, modified = False\<rparr>
      in case loadFile g fs (h0, editor) of
           (Inl err, _) \<Rightarrow> Inl err
         | (Inr _, st) \<Rightarrow> Inr st)"

section \<open>The command loop\<close>

text \<open>
  The part of \<^verbatim>\<open>main\<close> behind the parsing of a command line: the editor, the variable
  \<^verbatim>\<open>clipboard\<close> and the file system, and what each command does with them. A command
  that only prints (\<^verbatim>\<open>display\<close>, \<^verbatim>\<open>help\<close>) changes nothing and is left out, and so is
  \<^verbatim>\<open>quit\<close>, which ends the loop.
\<close>

record session =
  store :: heap
  editor :: FileEditor
  clipboard :: slice
  disk :: fsys

datatype command =
    Insert int string
  | Delete int
  | Replace int string
  | Append string
  | Search string
  | Substitute string string
  | Global string string
  | Copy int int
  | Paste int
  | Save

datatype reply = Done | Matches "int list" | Count nat

text \<open>\<^verbatim>\<open>var clipboard []string\<close>: the nil slice.\<close>

definition nil_slice :: slice where
  "nil_slice = \<lparr>s_arr = 0, s_off = 0, s_len = 0, s_cap = 0\<rparr>"

definition with_state :: "session \<Rightarrow> state \<Rightarrow> session" where
  "with_state ss st = ss\<lparr>store := fst st, editor := snd st\<rparr>"

definition exec :: "'r regexp_pkg \<Rightarrow> growth \<Rightarrow> command \<Rightarrow> session \<Rightarrow> (error + reply) \<times> session" where
  "exec R g cmd ss =
     (let st = (store ss, editor ss) in
      case cmd of
        Insert lineNum text \<Rightarrow>
          (case insertLine g lineNum text st of
             (Inl err, st1) \<Rightarrow> (Inl err, with_state ss st1)
           | (Inr _, st1) \<Rightarrow> (Inr Done, with_state ss st1))
      | Delete lineNum \<Rightarrow>
          (case deleteLine g lineNum st of
             (Inl err, st1) \<Rightarrow> (Inl err, with_state ss st1)
           | (Inr _, st1) \<Rightarrow> (Inr Done, with_state ss st1))
      | Replace lineNum text \<Rightarrow>
          (case replaceLine lineNum text st of
             (Inl err, st1) \<Rightarrow> (Inl err, with_state ss st1)
           | (Inr _, st1) \<Rightarrow> (Inr Done, with_state ss st1))
      | Append text \<Rightarrow> (Inr Done, with_state ss (appendLine g text st))
      | Search pattern \<Rightarrow>
          (case search R pattern st of
             (Inl err, st1) \<Rightarrow> (Inl err, with_state ss st1)
           | (Inr ms, st1) \<Rightarrow> (Inr (Matches ms), with_state ss st1))
      | Substitute pattern replacement \<Rightarrow>
          (case searchAndReplace R pattern replacement False st of
             (Inl err, st1) \<Rightarrow> (Inl err, with_state ss st1)
           | (Inr n, st1) \<Rightarrow> (Inr (Count n), with_state ss st1))
      | Global pattern replacement \<Rightarrow>
          (case searchAndReplace R pattern replacement True st of
             (Inl err, st1) \<Rightarrow> (Inl err, with_state ss st1)
           | (Inr n, st1) \<Rightarrow> (Inr (Count n), with_state ss st1))
      | Copy start end \<Rightarrow>
          (case copyLines start end st of
             (Inl err, st1) \<Rightarrow> (Inl err, with_state ss st1)
           | (Inr copied, st1) \<Rightarrow> (Inr Done, (with_state ss st1)\<lparr>clipboard := copied\<rparr>))
      | Paste lineNum \<Rightarrow>
          if s_len (clipboard ss) = 0 then (Inl ClipboardEmpty, ss)
          else
            (case pasteLines g lineNum (clipboard ss) st of
               (Inl err, st1) \<Rightarrow> (Inl err, with_state ss st1)
             | (Inr _, st1) \<Rightarrow> (Inr Done, with_state ss st1))
      | Save \<Rightarrow>
          (case save (disk ss) st of
             (Inl err, fs1, st1) \<Rightarrow> (Inl err, (with_state ss st1)\<lparr>disk := fs1\<rparr>)
           | (Inr _, fs1, st1) \<Rightarrow> (Inr Done, (with_state ss st1)\<lparr>disk := fs1\<rparr>)))"

text \<open>A run of commands; the replies are dropped.\<close>

fun run :: "'r regexp_pkg \<Rightarrow> growth \<Rightarrow> command list \<Rightarrow> session \<Rightarrow> session" where
  "run R g [] ss = ss"
| "run R g (cmd # cmds) ss = run R g cmds (snd (exec R g cmd ss))"

text \<open>
  The invariant of the command loop: the editor's slice is well formed, and the clipboard
  is either empty or a well-formed slice that is full (its length is its capacity, as
  \<^verbatim>\<open>make\<close> in \<^verbatim>\<open>copyLines\<close> produces it) and lives in another array than the editor's lines.
\<close>

definition wf_session :: "session \<Rightarrow> bool" where
  "wf_session ss \<longleftrightarrow>
     wf_state (store ss, editor ss) \<and>
     s_len (clipboard ss) = s_cap (clipboard ss) \<and>
     (s_len (clipboard ss) \<noteq> 0 \<longrightarrow>
        wf_slice (store ss) (clipboard ss) \<and> s_arr (clipboard ss) \<noteq> s_arr (lines (editor ss)))"

text \<open>
  What a method may do to the store: the editor stays well formed and keeps its file
  name, no array is freed, every array other than the one behind the editor's lines keeps
  its contents, and the lines afterwards live in the same array or in one allocated by
  the call.
\<close>

definition buffer_step :: "state \<Rightarrow> state \<Rightarrow> bool" where
  "buffer_step st st' \<longleftrightarrow>
     wf_state st' \<and> filename (snd st') = filename (snd st) \<and>
     length (fst st) \<le> length (fst st') \<and>
     (\<forall>a < length (fst st). a \<noteq> s_arr (lines (snd st)) \<longrightarrow> fst st' ! a = fst st ! a) \<and>
     (s_arr (lines (snd st')) = s_arr (lines (snd st)) \<or> length (fst st) \<le> s_arr (lines (snd st')))"

text \<open>
  The commands whose method assigns to the buffer whenever it succeeds. A substitution
  assigns only where it finds a match; what it does is read off the buffer.
\<close>

fun edits :: "command \<Rightarrow> bool" where
  "edits (Insert lineNum text) = True"
| "edits (Delete lineNum) = True"
| "edits (Replace lineNum text) = True"
| "edits (Append text) = True"
| "edits (Paste lineNum) = True"
| "edits (Substitute pattern replacement) = False"
| "edits (Global pattern replacement) = False"
| "edits (Search pattern) = False"
| "edits (Copy start end) = False"
| "edits Save = False"

section \<open>Example data\<close>

text \<open>
  A growth policy that doubles the capacity, and the buffer \<^verbatim>\<open>["a", "b", "c"]\<close> as three
  appends under that policy leave it: an array of four elements of which three are in use.
\<close>

definition doubling :: growth where
  "doubling old need = 2 * old"

definition abc_state :: state where
  "abc_state =
     ([[''a'', ''b'', ''c'', []]],
      \<lparr>filename = ''notes.txt'', lines = \<lparr>s_arr = 0, s_off = 0, s_len = 3, s_cap = 4\<rparr>,
       modified = False\<rparr>)"

text \<open>One-line buffers, each in an array of its own size.\<close>

definition one_line_state :: "string \<Rightarrow> bool \<Rightarrow> state" where
  "one_line_state line m =
     ([[line]],
      \<lparr>filename = ''notes.txt'', lines = \<lparr>s_arr = 0, s_off = 0, s_len = 1, s_cap = 1\<rparr>,
       modified = m\<rparr>)"

text \<open>
  Two file systems without files: one where any file may be created and a file may hold a
  million bytes, one where nothing may be created. And the session that edits the
  example buffer on a given file system, with nothing copied yet.
\<close>

definition open_disk :: fsys where
  "open_disk = \<lparr>files = (\<lambda>name. None), creatable = (\<lambda>name. True), quota = 1000000\<rparr>"

definition locked_disk :: fsys where
  "locked_disk = \<lparr>files = (\<lambda>name. None), creatable = (\<lambda>name. False), quota = 1000000\<rparr>"

definition abc_session :: "fsys \<Rightarrow> session" where
  "abc_session fs =
     \<lparr>store = fst abc_state, editor = snd abc_state, clipboard = nil_slice, disk = fs\<rparr>"

text \<open>A file system that already holds the file of the example buffer.\<close>

definition notes_disk :: fsys where
  "notes_disk =
     \<lparr>files = (\<lambda>name. if name = ''notes.txt''
                       then Some \<lparr>content = ''old'', readable = True, writable = True\<rparr> else None),
      creatable = (\<lambda>name. True), quota = 1000000\<rparr>"

text \<open>A line of 65536 letters, one more than the scanner can hold together with a newline.\<close>

definition long_line :: string where
  "long_line = replicate 65536 (CHR ''a'')"

section \<open>Facts about the slice operations\<close>

lemma length_write_at:
  "i + length vs \<le> length arr \<Longrightarrow> length (write_at arr i vs) = length arr"
  by (simp add: write_at_def)

lemma write_at_Nil: "write_at arr i [] = arr"
  by (simp add: write_at_def)

lemma take_write_at: "i \<le> length arr \<Longrightarrow> take i (write_at arr i vs) = take i arr"
  by (simp add: write_at_def)

lemma take_drop_write_at:
  assumes "k + n = i" and "i \<le> length arr"
  shows "take (n + length vs) (drop k (write_at arr i vs)) = take n (drop k arr) @ vs"
proof -
  have "drop k (write_at arr i vs) = drop k (take i arr) @ vs @ drop (i + length vs) arr"
    using assms by (simp add: write_at_def)
  moreover have "length (drop k (take i arr)) = n"
    using assms by simp
  moreover have "drop k (take i arr) = take n (drop k arr)"
  proof -
    have "i - k = n" using assms by simp
    then show ?thesis by (simp add: drop_take)
  qed
  ultimately show ?thesis by simp
qed

lemma wf_slice_expr:
  "wf_slice h s \<Longrightarrow> slice_expr s low high = Some t \<Longrightarrow> wf_slice h t"
  by (auto simp: wf_slice_def slice_expr_def split: if_splits)

lemma slice_val_expr:
  assumes "slice_expr s low high = Some t" and "high \<le> s_len s"
  shows "slice_val h t = take (high - low) (drop low (slice_val h s))"
proof -
  have t: "s_arr t = s_arr s" "s_off t = s_off s + low" "s_len t = high - low" and lh: "low \<le> high"
    using assms(1) by (auto simp: slice_expr_def split: if_splits)
  have "drop low (take (s_len s) (drop (s_off s) (h ! s_arr s)))
        = take (s_len s - low) (drop (s_off s + low) (h ! s_arr s))"
    by (simp add: drop_take add.commute)
  moreover have "min (high - low) (s_len s - low) = high - low"
    using assms(2) by simp
  ultimately show ?thesis
    by (simp add: slice_val_def t)
qed

lemma length_slice_val: "wf_slice h s \<Longrightarrow> length (slice_val h s) = s_len s"
  by (auto simp: slice_val_def wf_slice_def)

text \<open>What append does.\<close>

lemma go_append_val:
  assumes "wf_slice h s" and "go_append g h s vs = (h', s')"
  shows "slice_val h' s' = slice_val h s @ vs"
proof (cases "s_len s + length vs \<le> s_cap s")
  case True
  then have h': "h' = h[s_arr s := write_at (h ! s_arr s) (s_off s + s_len s) vs]"
    and s': "s' = s\<lparr>s_len := s_len s + length vs\<rparr>"
    using assms(2) by (simp_all add: go_append_def Let_def)
  have "s_off s + s_len s \<le> length (h ! s_arr s)" and "s_arr s < length h"
    using assms(1) by (simp_all add: wf_slice_def)
  then show ?thesis
    by (simp add: slice_val_def h' s' take_drop_write_at)
next
  case False
  then show ?thesis
    using assms by (auto simp: go_append_def Let_def slice_val_def wf_slice_def)
qed

lemma go_append_wf:
  assumes "wf_slice h s" and "go_append g h s vs = (h', s')"
  shows "wf_slice h' s'"
proof (cases "s_len s + length vs \<le> s_cap s")
  case True
  then have h': "h' = h[s_arr s := write_at (h ! s_arr s) (s_off s + s_len s) vs]"
    and s': "s' = s\<lparr>s_len := s_len s + length vs\<rparr>"
    using assms(2) by (simp_all add: go_append_def Let_def)
  have "s_off s + s_len s + length vs \<le> length (h ! s_arr s)"
    using assms(1) True by (simp add: wf_slice_def)
  then show ?thesis
    using assms(1) True by (simp add: wf_slice_def h' s' length_write_at)
next
  case False
  then show ?thesis
    using assms by (auto simp: go_append_def Let_def slice_val_def wf_slice_def)
qed

text \<open>What append leaves alone.\<close>

lemma go_append_length:
  assumes "go_append g h s vs = (h', s')"
  shows "length h \<le> length h'"
  using assms by (auto simp: go_append_def Let_def split: if_splits)

lemma go_append_other:
  assumes "go_append g h s vs = (h', s')" and "a < length h" and "a \<noteq> s_arr s"
  shows "h' ! a = h ! a"
  using assms by (auto simp: go_append_def Let_def nth_append split: if_splits)

lemma go_append_Nil:
  assumes "wf_slice h s" 
  shows "go_append g h s [] = (h, s)"
  using assms by (simp add: go_append_def wf_slice_def write_at_Nil)

lemma go_append_full:
  assumes "go_append g h s vs = (h', s')" and "s_len s = s_cap s" and "vs \<noteq> []" and "a < length h"
  shows "h' ! a = h ! a"
  using assms by (auto simp: go_append_def Let_def nth_append split: if_splits)

lemma go_append_arr_length:
  assumes "wf_slice h s" and "go_append g h s vs = (h', s')" and "a < length h"
  shows "length (h' ! a) = length (h ! a)"
proof (cases "s_len s + length vs \<le> s_cap s")
  case True
  then have h': "h' = h[s_arr s := write_at (h ! s_arr s) (s_off s + s_len s) vs]"
    using assms(2) by (simp_all add: go_append_def Let_def)
  have "s_off s + s_len s + length vs \<le> length (h ! s_arr s)"
    using assms(1) True by (simp add: wf_slice_def)
  then show ?thesis
    using assms(3) by (cases "a = s_arr s") (simp_all add: h' length_write_at)
next
  case False
  then show ?thesis
    using assms by (auto simp: go_append_def Let_def nth_append)
qed

lemma go_append_prefix:
  assumes "wf_slice h s" and "go_append g h s vs = (h', s')"
  shows "take (s_off s + s_len s) (h' ! s_arr s) = take (s_off s + s_len s) (h ! s_arr s)"
proof (cases "s_len s + length vs \<le> s_cap s")
  case True
  then have h': "h' = h[s_arr s := write_at (h ! s_arr s) (s_off s + s_len s) vs]"
    using assms(2) by (simp_all add: go_append_def Let_def)
  have "s_off s + s_len s \<le> length (h ! s_arr s)" "s_arr s < length h"
    using assms(1) True by (simp_all add: wf_slice_def)
  then show ?thesis
    by (simp add: h' take_write_at)
next
  case False
  then show ?thesis
    using assms by (auto simp: go_append_def Let_def nth_append wf_slice_def)
qed

lemma go_append_arr:
  assumes "go_append g h s vs = (h', s')"
  shows "s_arr s' = s_arr s \<or> (s_arr s' = length h \<and> length h < length h')"
  using assms by (auto simp: go_append_def Let_def split: if_splits)

text \<open>Other slices keep their well-formedness, and their value when not overwritten.\<close>

lemma go_append_wf_other:
  assumes "wf_slice h s" and "go_append g h s vs = (h', s')" and "wf_slice h t"
  shows "wf_slice h' t"
  using go_append_length[OF assms(2)] go_append_arr_length[OF assms(1,2), of "s_arr t"] assms(3)
  by (simp add: wf_slice_def)

lemma go_append_val_other:
  assumes "wf_slice h s" and "go_append g h s vs = (h', s')" and "wf_slice h t"
    and "s_arr t \<noteq> s_arr s \<or> s_off t + s_len t \<le> s_off s + s_len s"
  shows "slice_val h' t = slice_val h t"
proof (cases "s_arr t = s_arr s")
  case False
  then show ?thesis
    using go_append_other[OF assms(2), of "s_arr t"] assms(3)
    by (simp add: slice_val_def wf_slice_def)
next
  case True
  then have le: "s_off t + s_len t \<le> s_off s + s_len s"
    using assms(4) by simp
  have "take (s_off t + s_len t) (h' ! s_arr s) = take (s_off t + s_len t) (h ! s_arr s)"
    using go_append_prefix[OF assms(1,2)] le
  proof -
    have "take (s_off t + s_len t) (take (s_off s + s_len s) (h' ! s_arr s))
        = take (s_off t + s_len t) (take (s_off s + s_len s) (h ! s_arr s))"
      using go_append_prefix[OF assms(1,2)] by simp
    then show ?thesis using le by (simp add: min_def)
  qed
  then have "drop (s_off t) (take (s_off t + s_len t) (h' ! s_arr s))
           = drop (s_off t) (take (s_off t + s_len t) (h ! s_arr s))"
    by simp
  then show ?thesis
    by (simp add: slice_val_def True drop_take)
qed

text \<open>Allocation.\<close>

lemma wf_slice_ext: "wf_slice h s \<Longrightarrow> wf_slice (h @ [x]) s"
  by (simp add: wf_slice_def nth_append)

lemma slice_val_ext: "s_arr s < length h \<Longrightarrow> slice_val (h @ [x]) s = slice_val h s"
  by (simp add: slice_val_def nth_append)

lemma slice_lit_wf: "slice_lit h vs = (h', s') \<Longrightarrow> wf_slice h' s'"
  by (auto simp: slice_lit_def wf_slice_def)

lemma slice_lit_val: "slice_lit h vs = (h', s') \<Longrightarrow> slice_val h' s' = vs"
  by (auto simp: slice_lit_def slice_val_def)

section \<open>The methods on a well-formed state\<close>

lemma insertLine_ok:
  assumes wf: "wf_state st" and lo: "1 \<le> lineNum" and hi: "lineNum \<le> int (length (lines_of st)) + 1"
  shows "\<exists>st'. insertLine g lineNum text st = (Inr (), st') \<and>
           lines_of st' = take (nat (lineNum - 1)) (lines_of st) @ text # drop (nat (lineNum - 1)) (lines_of st) \<and>
           wf_state st' \<and> modified (snd st') \<and> filename (snd st') = filename (snd st) \<and>
           length (fst st) \<le> length (fst st') \<and>
           (\<forall>a < length (fst st). a \<noteq> s_arr (lines (snd st)) \<longrightarrow> fst st' ! a = fst st ! a) \<and>
           (s_arr (lines (snd st')) = s_arr (lines (snd st)) \<or> length (fst st) \<le> s_arr (lines (snd st')))"
proof -
  obtain h fe where st: "st = (h, fe)" by (cases st)
  define s where "s = lines fe"
  define L where "L = slice_val h s"
  define k where "k = nat (lineNum - 1)"
  have wfs: "wf_slice h s" using wf by (simp add: wf_state_def st s_def)
  have lenL: "length L = s_len s" using wfs by (simp add: L_def length_slice_val)
  have k: "k \<le> s_len s" using lo hi by (simp add: k_def lines_of_def st s_def[symmetric] L_def[symmetric] lenL)
  have cap: "s_len s \<le> s_cap s" and arr: "s_arr s < length h" using wfs by (simp_all add: wf_slice_def)
  define F where "F = \<lparr>s_arr = s_arr s, s_off = s_off s + 0, s_len = k - 0, s_cap = s_cap s - 0\<rparr>"
  define B where "B = \<lparr>s_arr = s_arr s, s_off = s_off s + k, s_len = s_len s - k, s_cap = s_cap s - k\<rparr>"
  have eF: "slice_expr s 0 k = Some F" using k cap by (simp add: slice_expr_def F_def)
  have eB: "slice_expr s k (s_len s) = Some B" using k cap by (simp add: slice_expr_def B_def)
  define h1 where "h1 = h @ [[text]]"
  define one where "one = \<lparr>s_arr = length h, s_off = 0, s_len = length [text], s_cap = length [text]\<rparr>"
  have lit: "slice_lit h [text] = (h1, one)" by (simp add: slice_lit_def h1_def one_def)
  have wf1: "wf_slice h1 s" using wfs by (simp add: h1_def wf_slice_ext)
  have wfF1: "wf_slice h1 F" using wf1 eF by (rule wf_slice_expr)
  have wfB1: "wf_slice h1 B" using wf1 eB by (rule wf_slice_expr)
  have wfone: "wf_slice h1 one" using lit by (rule slice_lit_wf)
  have valB: "slice_val h1 B = drop k L"
    using slice_val_expr[OF eB, of h1] lenL arr by (simp add: L_def h1_def slice_val_ext)
  have valF: "slice_val h1 F = take k L"
    using slice_val_expr[OF eF, of h1] k arr by (simp add: L_def h1_def slice_val_ext)
  obtain h2 inner where a1: "go_append g h1 one (drop k L) = (h2, inner)" by (cases "go_append g h1 one (drop k L)")
  have valinner: "slice_val h2 inner = text # drop k L"
    using go_append_val[OF wfone a1] slice_lit_val[OF lit] by simp
  have wfF2: "wf_slice h2 F" using wfone a1 wfF1 by (rule go_append_wf_other)
  have neq: "s_arr F \<noteq> s_arr one" using arr by (simp add: F_def one_def)
  have valF2: "slice_val h2 F = take k L"
    using go_append_val_other[OF wfone a1 wfF1] neq valF by simp
  obtain h3 res where a2: "go_append g h2 F (text # drop k L) = (h3, res)" by (cases "go_append g h2 F (text # drop k L)")
  have valres: "slice_val h3 res = take k L @ text # drop k L"
    using go_append_val[OF wfF2 a2] valF2 by simp
  have wfres: "wf_slice h3 res" using wfF2 a2 by (rule go_append_wf)
  have len1: "length h < length h1" by (simp add: h1_def)
  have len2: "length h1 \<le> length h2" using a1 by (rule go_append_length)
  have len3: "length h2 \<le> length h3" using a2 by (rule go_append_length)
  have frame: "h3 ! a = h ! a" if "a < length h" "a \<noteq> s_arr s" for a
  proof -
    have "h3 ! a = h2 ! a" using go_append_other[OF a2, of a] that len1 len2 by (simp add: F_def)
    also have "h2 ! a = h1 ! a" using go_append_other[OF a1, of a] that len1 by (simp add: one_def)
    also have "h1 ! a = h ! a" using that by (simp add: h1_def nth_append)
    finally show ?thesis .
  qed
  have arr3: "s_arr res = s_arr s \<or> length h \<le> s_arr res"
    using go_append_arr[OF a2] len1 len2 by (auto simp: F_def)
  have run: "insertLine g lineNum text st = (Inr (), (h3, fe\<lparr>lines := res, modified := True\<rparr>))"
    using lo hi eF eB lit a1 a2 valB valinner
    by (simp add: insertLine_def st s_def[symmetric] k_def[symmetric] lines_of_def L_def[symmetric] lenL)
  show ?thesis
    using run valres wfres frame arr3 len1 len2 len3
    by (simp add: lines_of_def wf_state_def st s_def[symmetric] L_def[symmetric] k_def[symmetric])
qed

lemma deleteLine_ok:
  assumes wf: "wf_state st" and lo: "1 \<le> lineNum" and hi: "lineNum \<le> int (length (lines_of st))"
  shows "\<exists>st'. deleteLine g lineNum st = (Inr (), st') \<and>
           lines_of st' = take (nat (lineNum - 1)) (lines_of st) @ drop (nat (lineNum - 1) + 1) (lines_of st) \<and>
           wf_state st' \<and> modified (snd st') \<and> filename (snd st') = filename (snd st) \<and>
           length (fst st) \<le> length (fst st') \<and>
           (\<forall>a < length (fst st). a \<noteq> s_arr (lines (snd st)) \<longrightarrow> fst st' ! a = fst st ! a) \<and>
           (s_arr (lines (snd st')) = s_arr (lines (snd st)) \<or> length (fst st) \<le> s_arr (lines (snd st')))"
proof -
  obtain h fe where st: "st = (h, fe)" by (cases st)
  define s where "s = lines fe"
  define L where "L = slice_val h s"
  define k where "k = nat (lineNum - 1)"
  have wfs: "wf_slice h s" using wf by (simp add: wf_state_def st s_def)
  have lenL: "length L = s_len s" using wfs by (simp add: L_def length_slice_val)
  have k: "k < s_len s" using lo hi by (simp add: k_def lines_of_def st s_def[symmetric] L_def[symmetric] lenL)
  have cap: "s_len s \<le> s_cap s" and arr: "s_arr s < length h" using wfs by (simp_all add: wf_slice_def)
  define F where "F = \<lparr>s_arr = s_arr s, s_off = s_off s + 0, s_len = k - 0, s_cap = s_cap s - 0\<rparr>"
  define B where "B = \<lparr>s_arr = s_arr s, s_off = s_off s + (k + 1), s_len = s_len s - (k + 1), s_cap = s_cap s - (k + 1)\<rparr>"
  have eF: "slice_expr s 0 k = Some F" using k cap by (simp add: slice_expr_def F_def)
  have eB: "slice_expr s (k + 1) (s_len s) = Some B" using k cap by (simp add: slice_expr_def B_def)
  have wfF: "wf_slice h F" using wfs eF by (rule wf_slice_expr)
  have valB: "slice_val h B = drop (k + 1) L"
    using slice_val_expr[OF eB, of h] lenL by (simp add: L_def)
  have valF: "slice_val h F = take k L"
    using slice_val_expr[OF eF, of h] k by (simp add: L_def)
  obtain h1 res where a1: "go_append g h F (drop (k + 1) L) = (h1, res)"
    by (cases "go_append g h F (drop (k + 1) L)")
  have valres: "slice_val h1 res = take k L @ drop (k + 1) L"
    using go_append_val[OF wfF a1] valF by simp
  have wfres: "wf_slice h1 res" using wfF a1 by (rule go_append_wf)
  have len1: "length h \<le> length h1" using a1 by (rule go_append_length)
  have frame: "h1 ! a = h ! a" if "a < length h" "a \<noteq> s_arr s" for a
    using go_append_other[OF a1, of a] that by (simp add: F_def)
  have arr1: "s_arr res = s_arr s \<or> length h \<le> s_arr res"
    using go_append_arr[OF a1] by (auto simp: F_def)
  have run: "deleteLine g lineNum st = (Inr (), (h1, fe\<lparr>lines := res, modified := True\<rparr>))"
    using lo hi eF eB a1 valB
    by (simp add: deleteLine_def st s_def[symmetric] k_def[symmetric] lines_of_def L_def[symmetric] lenL)
  show ?thesis
    using run valres wfres frame arr1 len1
    by (simp add: lines_of_def wf_state_def st s_def[symmetric] L_def[symmetric] k_def[symmetric])
qed

lemma slice_store_val:
  assumes "wf_slice h s" and "slice_store h s i v = Some h'"
  shows "slice_val h' s = (slice_val h s)[i := v]"
proof -
  have i: "i < s_len s" and h': "h' = h[s_arr s := (h ! s_arr s)[s_off s + i := v]]"
    using assms(2) by (auto simp: slice_store_def split: if_splits)
  have "s_arr s < length h" using assms(1) by (simp add: wf_slice_def)
  then have "slice_val h' s = take (s_len s) (drop (s_off s) ((h ! s_arr s)[s_off s + i := v]))"
    by (simp add: slice_val_def h')
  also have "\<dots> = (slice_val h s)[i := v]"
    by (simp add: slice_val_def drop_update_swap take_update_swap)
  finally show ?thesis .
qed

lemma slice_store_wf:
  assumes "wf_slice h t" and "slice_store h s i v = Some h'"
  shows "wf_slice h' t"
proof -
  have h': "h' = h[s_arr s := (h ! s_arr s)[s_off s + i := v]]"
    using assms(2) by (auto simp: slice_store_def split: if_splits)
  have "length (h' ! s_arr t) = length (h ! s_arr t)"
    using assms(1) by (cases "s_arr t = s_arr s") (simp_all add: h' wf_slice_def)
  then show ?thesis using assms(1) by (simp add: wf_slice_def h')
qed

lemma slice_store_other:
  assumes "slice_store h s i v = Some h'" and "a \<noteq> s_arr s"
  shows "h' ! a = h ! a"
  using assms by (auto simp: slice_store_def split: if_splits)

lemma slice_store_length:
  assumes "slice_store h s i v = Some h'"
  shows "length h' = length h"
  using assms by (auto simp: slice_store_def split: if_splits)

lemma replaceLine_ok:
  assumes wf: "wf_state st" and lo: "1 \<le> lineNum" and hi: "lineNum \<le> int (length (lines_of st))"
  shows "\<exists>st'. replaceLine lineNum text st = (Inr (), st') \<and>
           lines_of st' = (lines_of st)[nat (lineNum - 1) := text] \<and>
           wf_state st' \<and> modified (snd st') \<and> filename (snd st') = filename (snd st) \<and>
           length (fst st) \<le> length (fst st') \<and>
           (\<forall>a < length (fst st). a \<noteq> s_arr (lines (snd st)) \<longrightarrow> fst st' ! a = fst st ! a) \<and>
           (s_arr (lines (snd st')) = s_arr (lines (snd st)) \<or> length (fst st) \<le> s_arr (lines (snd st')))"
proof -
  obtain h fe where st: "st = (h, fe)" by (cases st)
  define s where "s = lines fe"
  define k where "k = nat (lineNum - 1)"
  have wfs: "wf_slice h s" using wf by (simp add: wf_state_def st s_def)
  have lenL: "length (slice_val h s) = s_len s" using wfs by (simp add: length_slice_val)
  have k: "k < s_len s" using lo hi by (simp add: k_def lines_of_def st s_def[symmetric] lenL)
  obtain h1 where sto: "slice_store h s k text = Some h1"
    using k by (simp add: slice_store_def)
  have run: "replaceLine lineNum text st = (Inr (), (h1, fe\<lparr>modified := True\<rparr>))"
    using lo hi sto
    by (simp add: replaceLine_def st s_def[symmetric] k_def[symmetric] lines_of_def lenL)
  show ?thesis
    using run slice_store_val[OF wfs sto] slice_store_wf[OF wfs sto] slice_store_other[OF sto] slice_store_length[OF sto]
    by (simp add: lines_of_def wf_state_def st s_def[symmetric] k_def[symmetric])
qed

lemma appendLine_ok:
  assumes wf: "wf_state st"
  shows "\<exists>st'. appendLine g text st = st' \<and>
           lines_of st' = lines_of st @ [text] \<and>
           wf_state st' \<and> modified (snd st') \<and> filename (snd st') = filename (snd st) \<and>
           length (fst st) \<le> length (fst st') \<and>
           (\<forall>a < length (fst st). a \<noteq> s_arr (lines (snd st)) \<longrightarrow> fst st' ! a = fst st ! a) \<and>
           (s_arr (lines (snd st')) = s_arr (lines (snd st)) \<or> length (fst st) \<le> s_arr (lines (snd st')))"
proof -
  obtain h fe where st: "st = (h, fe)" by (cases st)
  define s where "s = lines fe"
  have wfs: "wf_slice h s" using wf by (simp add: wf_state_def st s_def)
  obtain h1 res where a1: "go_append g h s [text] = (h1, res)"
    by (cases "go_append g h s [text]")
  have run: "appendLine g text st = (h1, fe\<lparr>lines := res, modified := True\<rparr>)"
    using a1 by (simp add: appendLine_def st s_def[symmetric])
  have frame: "h1 ! a = h ! a" if "a < length h" "a \<noteq> s_arr s" for a
    using go_append_other[OF a1, of a] that by simp
  have arr1: "s_arr res = s_arr s \<or> length h \<le> s_arr res"
    using go_append_arr[OF a1] by auto
  show ?thesis
    using run go_append_val[OF wfs a1] go_append_wf[OF wfs a1] go_append_length[OF a1] frame arr1
    by (simp add: lines_of_def wf_state_def st s_def[symmetric])
qed

lemma go_copy_val:
  assumes "wf_slice h dst" and "length vs = s_len dst"
  shows "slice_val (go_copy h dst vs) dst = vs"
proof -
  have a: "s_arr dst < length h" and b: "s_off dst \<le> length (h ! s_arr dst)"
    using assms(1) by (simp_all add: wf_slice_def)
  have "take (0 + length vs) (drop (s_off dst) (write_at (h ! s_arr dst) (s_off dst) vs))
        = take 0 (drop (s_off dst) (h ! s_arr dst)) @ vs"
    using b by (intro take_drop_write_at) simp_all
  then show ?thesis
    using a assms(2) by (simp add: slice_val_def go_copy_def)
qed

lemma go_copy_other: "a \<noteq> s_arr dst \<Longrightarrow> go_copy h dst vs ! a = h ! a"
  by (simp add: go_copy_def)

lemma length_go_copy: "length (go_copy h dst vs) = length h"
  by (simp add: go_copy_def)

lemma go_copy_wf:
  assumes "wf_slice h dst" and "length vs = s_len dst"
  shows "wf_slice (go_copy h dst vs) dst"
proof -
  have "s_off dst + length (take (s_len dst) vs) \<le> length (h ! s_arr dst)"
    using assms by (simp add: wf_slice_def)
  then have "length (write_at (h ! s_arr dst) (s_off dst) (take (s_len dst) vs)) = length (h ! s_arr dst)"
    by (rule length_write_at)
  then show ?thesis
    using assms(1) by (simp add: wf_slice_def go_copy_def)
qed

lemma copyLines_ok:
  assumes wf: "wf_state st" and lo: "1 \<le> start" and mid: "start \<le> end"
    and hi: "end \<le> int (length (lines_of st))"
  shows "\<exists>c h'. copyLines start end st = (Inr c, (h', snd st)) \<and>
           slice_val h' c = take (nat (end - start + 1)) (drop (nat (start - 1)) (lines_of st)) \<and>
           wf_slice h' c \<and> s_len c = s_cap c \<and> s_arr c = length (fst st) \<and>
           length h' = length (fst st) + 1 \<and>
           (\<forall>a < length (fst st). h' ! a = fst st ! a)"
proof -
  obtain h fe where st: "st = (h, fe)" by (cases st)
  define s where "s = lines fe"
  define L where "L = slice_val h s"
  define lo' where "lo' = nat (start - 1)"
  define hi' where "hi' = nat end"
  define m where "m = nat (end - start + 1)"
  have wfs: "wf_slice h s" using wf by (simp add: wf_state_def st s_def)
  have lenL: "length L = s_len s" using wfs by (simp add: L_def length_slice_val)
  have hiL: "end \<le> int (s_len s)" using hi by (simp add: lines_of_def st s_def[symmetric] L_def[symmetric] lenL)
  have b: "lo' \<le> hi'" "hi' \<le> s_len s" "hi' - lo' = m"
    using lo mid hiL by (simp_all add: lo'_def hi'_def m_def)
  have cap: "s_len s \<le> s_cap s" and arr: "s_arr s < length h" using wfs by (simp_all add: wf_slice_def)
  define src where "src = \<lparr>s_arr = s_arr s, s_off = s_off s + lo', s_len = hi' - lo', s_cap = s_cap s - lo'\<rparr>"
  have esrc: "slice_expr s lo' hi' = Some src" using b cap by (simp add: slice_expr_def src_def)
  define h1 where "h1 = h @ [replicate m []]"
  define c where "c = \<lparr>s_arr = length h, s_off = 0, s_len = length (replicate m ([]::string)), s_cap = length (replicate m ([]::string))\<rparr>"
  have mk: "go_make h m = (h1, c)" by (simp add: go_make_def slice_lit_def h1_def c_def)
  have wfc: "wf_slice h1 c" using mk by (simp add: go_make_def slice_lit_wf)
  have valsrc: "slice_val h1 src = take m (drop lo' L)"
    using slice_val_expr[OF esrc, of h1] b arr by (simp add: L_def h1_def slice_val_ext)
  have lensrc: "length (take m (drop lo' L)) = s_len c"
    using b lenL by (simp add: c_def)
  define h2 where "h2 = go_copy h1 c (take m (drop lo' L))"
  have run: "copyLines start end st = (Inr c, (h2, fe))"
    using lo mid hiL mk esrc valsrc
    by (simp add: copyLines_def st s_def[symmetric] lo'_def[symmetric] hi'_def[symmetric]
        m_def[symmetric] h2_def Let_def)
  have frame: "h2 ! a = h ! a" if "a < length h" for a
    using that by (simp add: h2_def go_copy_other c_def h1_def nth_append)
  have len2: "length h2 = length h + 1"
    by (simp add: h2_def length_go_copy h1_def)
  have cc: "s_len c = s_cap c" "s_arr c = length h"
    by (simp_all add: c_def)
  show ?thesis
    using run go_copy_val[OF wfc lensrc] go_copy_wf[OF wfc lensrc] frame len2 cc
    by (simp add: st lines_of_def s_def[symmetric] L_def[symmetric] h2_def[symmetric]
        lo'_def[symmetric] m_def[symmetric])
qed

lemma pasteLines_ok:
  assumes wf: "wf_state st" and wfb: "wf_slice (fst st) block"
    and ne: "s_arr block \<noteq> s_arr (lines (snd st))"
    and lo: "1 \<le> lineNum" and hi: "lineNum \<le> int (length (lines_of st)) + 1"
  shows "\<exists>st'. pasteLines g lineNum block st = (Inr (), st') \<and>
           lines_of st' = take (nat (lineNum - 1)) (lines_of st) @ slice_val (fst st) block
                            @ drop (nat (lineNum - 1)) (lines_of st) \<and>
           wf_state st' \<and> modified (snd st') \<and> filename (snd st') = filename (snd st) \<and>
           length (fst st) \<le> length (fst st') \<and>
           (\<forall>a < length (fst st). a \<noteq> s_arr (lines (snd st)) \<longrightarrow>
               a \<noteq> s_arr block \<or> s_len block = s_cap block \<longrightarrow> fst st' ! a = fst st ! a) \<and>
           slice_val (fst st') block = slice_val (fst st) block \<and> wf_slice (fst st') block \<and>
           (s_arr (lines (snd st')) = s_arr (lines (snd st)) \<or> length (fst st) \<le> s_arr (lines (snd st')))"
proof -
  obtain h fe where st: "st = (h, fe)" by (cases st)
  define s where "s = lines fe"
  define L where "L = slice_val h s"
  define k where "k = nat (lineNum - 1)"
  have wfs: "wf_slice h s" using wf by (simp add: wf_state_def st s_def)
  have wfblock: "wf_slice h block" using wfb by (simp add: st)
  have neq: "s_arr block \<noteq> s_arr s" using ne by (simp add: st s_def)
  have lenL: "length L = s_len s" using wfs by (simp add: L_def length_slice_val)
  have k: "k \<le> s_len s" using lo hi by (simp add: k_def lines_of_def st s_def[symmetric] L_def[symmetric] lenL)
  have cap: "s_len s \<le> s_cap s" and arr: "s_arr s < length h" using wfs by (simp_all add: wf_slice_def)
  define F where "F = \<lparr>s_arr = s_arr s, s_off = s_off s + 0, s_len = k - 0, s_cap = s_cap s - 0\<rparr>"
  define B where "B = \<lparr>s_arr = s_arr s, s_off = s_off s + k, s_len = s_len s - k, s_cap = s_cap s - k\<rparr>"
  have eF: "slice_expr s 0 k = Some F" using k cap by (simp add: slice_expr_def F_def)
  have eB: "slice_expr s k (s_len s) = Some B" using k cap by (simp add: slice_expr_def B_def)
  have wfF: "wf_slice h F" using wfs eF by (rule wf_slice_expr)
  have valB: "slice_val h B = drop k L"
    using slice_val_expr[OF eB, of h] lenL by (simp add: L_def)
  have valF: "slice_val h F = take k L"
    using slice_val_expr[OF eF, of h] k by (simp add: L_def)
  obtain h1 inner where a1: "go_append g h block (drop k L) = (h1, inner)"
    by (cases "go_append g h block (drop k L)")
  have valinner: "slice_val h1 inner = slice_val h block @ drop k L"
    using wfblock a1 by (rule go_append_val)
  have wfF1: "wf_slice h1 F" using wfblock a1 wfF by (rule go_append_wf_other)
  have wfb1: "wf_slice h1 block" using wfblock a1 wfblock by (rule go_append_wf_other)
  have valF1: "slice_val h1 F = take k L"
    using go_append_val_other[OF wfblock a1 wfF] neq valF by (simp add: F_def)
  have valb1: "slice_val h1 block = slice_val h block"
    using go_append_val_other[OF wfblock a1 wfblock] by simp
  obtain h2 res where a2: "go_append g h1 F (slice_val h block @ drop k L) = (h2, res)"
    by (cases "go_append g h1 F (slice_val h block @ drop k L)")
  have valres: "slice_val h2 res = take k L @ slice_val h block @ drop k L"
    using go_append_val[OF wfF1 a2] valF1 by simp
  have wfres: "wf_slice h2 res" using wfF1 a2 by (rule go_append_wf)
  have wfb2: "wf_slice h2 block" using wfF1 a2 wfb1 by (rule go_append_wf_other)
  have valb2: "slice_val h2 block = slice_val h block"
    using go_append_val_other[OF wfF1 a2 wfb1] neq valb1 by (simp add: F_def)
  have len1: "length h \<le> length h1" using a1 by (rule go_append_length)
  have len2: "length h1 \<le> length h2" using a2 by (rule go_append_length)
  have step2: "h2 ! a = h1 ! a" if "a < length h" "a \<noteq> s_arr s" for a
    using go_append_other[OF a2, of a] that len1 by (simp add: F_def)
  have frame: "h2 ! a = h ! a" if "a < length h" "a \<noteq> s_arr s" "a \<noteq> s_arr block" for a
    using go_append_other[OF a1, of a] step2 that by simp
  have full: "h1 ! a = h ! a" if "a < length h" "s_len block = s_cap block" for a
  proof (cases "drop k L = []")
    case True
    then show ?thesis using a1 go_append_Nil[OF wfblock, of g] by simp
  next
    case False
    then show ?thesis using go_append_full[OF a1 that(2) _ that(1)] by simp
  qed
  have frame': "h2 ! a = h ! a" if "a < length h" "a \<noteq> s_arr s" "s_len block = s_cap block" for a
    using full step2 that by simp
  have arr2: "s_arr res = s_arr s \<or> length h \<le> s_arr res"
    using go_append_arr[OF a2] len1 by (auto simp: F_def)
  have run: "pasteLines g lineNum block st = (Inr (), (h2, fe\<lparr>lines := res, modified := True\<rparr>))"
    using lo hi eF eB a1 a2 valB valinner
    by (simp add: pasteLines_def st s_def[symmetric] k_def[symmetric] lines_of_def L_def[symmetric] lenL)
  show ?thesis
    using run valres wfres frame frame' arr2 len1 len2 valb2 wfb2
    by (auto simp add: lines_of_def wf_state_def st s_def[symmetric] L_def[symmetric] k_def[symmetric])
qed

section \<open>The loops of substitution and search\<close>

lemma slice_val_nth:
  assumes "wf_slice h s" and "i < s_len s"
  shows "slice_val h s ! i = (h ! s_arr s) ! (s_off s + i)"
  using assms by (simp add: slice_val_def wf_slice_def)

lemma slice_update_val:
  assumes "wf_slice h s" and "i < s_len s"
  shows "slice_val (h[s_arr s := (h ! s_arr s)[s_off s + i := v]]) s = (slice_val h s)[i := v]"
  using slice_store_val[OF assms(1), where i=i and v=v] assms(2) by (simp add: slice_store_def)

lemma slice_update_wf:
  assumes "wf_slice h s" and "i < s_len s"
  shows "wf_slice (h[s_arr s := (h ! s_arr s)[s_off s + i := v]]) s"
  using slice_store_wf[OF assms(1), where s=s and i=i and v=v] assms(2) by (simp add: slice_store_def)

lemma replace_loop_spec:
  assumes "wf_slice h s" and "i \<le> s_len s"
  shows "\<exists>h'. replace_loop R re repl global s i h c
                 = (h', c + snd (subst_lines R re repl global (drop i (slice_val h s)))) \<and>
              slice_val h' s = take i (slice_val h s) @ fst (subst_lines R re repl global (drop i (slice_val h s))) \<and>
              length h' = length h \<and> (\<forall>a. a \<noteq> s_arr s \<longrightarrow> h' ! a = h ! a) \<and> wf_slice h' s"
  using assms
proof (induction "s_len s - i" arbitrary: i h c)
  case 0
  then have i: "i = s_len s" by simp
  have "length (slice_val h s) = s_len s" using "0.prems"(1) by (rule length_slice_val)
  then show ?case using "0.prems"(1) by (simp add: i)
next
  case (Suc n)
  let ?L = "slice_val h s"
  have i: "i < s_len s" using Suc.hyps(2) by simp
  have lenL: "length ?L = s_len s" using Suc.prems(1) by (rule length_slice_val)
  define line where "line = (h ! s_arr s) ! (s_off s + i)"
  have nth: "?L ! i = line" using Suc.prems(1) i by (simp add: line_def slice_val_nth)
  have dropi: "drop i ?L = line # drop (Suc i) ?L"
    using i lenL nth Cons_nth_drop_Suc[of i ?L] by simp
  have n: "n = s_len s - Suc i" using Suc.hyps(2) by simp
  have keep: "\<exists>h'. replace_loop R re repl global s (Suc i) h c
                 = (h', c + snd (subst_lines R re repl global (drop (Suc i) ?L))) \<and>
              slice_val h' s = take (Suc i) ?L @ fst (subst_lines R re repl global (drop (Suc i) ?L)) \<and>
              length h' = length h \<and> (\<forall>a. a \<noteq> s_arr s \<longrightarrow> h' ! a = h ! a) \<and> wf_slice h' s" for c
    using Suc.hyps(1)[OF n Suc.prems(1), of c] i by (simp del: replace_loop.simps)
  have takeS: "take (Suc i) ?L = take i ?L @ [line]"
    using i lenL nth by (simp add: take_Suc_conv_app_nth)
  define v where "v = ReplaceAllString R re line repl"
  define h1 where "h1 = h[s_arr s := (h ! s_arr s)[s_off s + i := v]]"
  have wf1: "wf_slice h1 s" using Suc.prems(1) i by (simp add: h1_def slice_update_wf)
  have L1: "slice_val h1 s = ?L[i := v]" using Suc.prems(1) i by (simp add: h1_def slice_update_val)
  have len1: "length h1 = length h" by (simp add: h1_def)
  have oth1: "h1 ! a = h ! a" if "a \<noteq> s_arr s" for a using that by (simp add: h1_def)
  have upd: "\<exists>h'. replace_loop R re repl global s (Suc i) h1 c
                 = (h', c + snd (subst_lines R re repl global (drop (Suc i) ?L))) \<and>
              slice_val h' s = take i ?L @ v # fst (subst_lines R re repl global (drop (Suc i) ?L)) \<and>
              length h' = length h \<and> (\<forall>a. a \<noteq> s_arr s \<longrightarrow> h' ! a = h ! a) \<and> wf_slice h' s" for c
  proof -
    have "take (Suc i) (?L[i := v]) = take i ?L @ [v]"
      using i lenL by (simp add: take_Suc_conv_app_nth)
    then show ?thesis
      using Suc.hyps(1)[OF n wf1, of c] i L1 len1 oth1 by (simp del: replace_loop.simps)
  qed
  show ?case
  proof (cases global)
    case True
    show ?thesis
    proof (cases "v = line")
      case True
      have "replace_loop R re repl global s i h c = replace_loop R re repl global s (Suc i) h c"
        using i \<open>global\<close> True by (subst replace_loop.simps) (simp del: replace_loop.simps add: line_def[symmetric] v_def[symmetric])
      moreover have "subst_lines R re repl global (drop i ?L)
          = (line # fst (subst_lines R re repl global (drop (Suc i) ?L)),
             snd (subst_lines R re repl global (drop (Suc i) ?L)))"
        using \<open>global\<close> True by (simp add: dropi v_def[symmetric] split: prod.splits)
      ultimately show ?thesis using keep[of c] takeS by (simp del: replace_loop.simps)
    next
      case False
      have "replace_loop R re repl global s i h c = replace_loop R re repl global s (Suc i) h1 (c + 1)"
        using i \<open>global\<close> False
        by (subst replace_loop.simps) (simp del: replace_loop.simps add: line_def[symmetric] v_def[symmetric] h1_def)
      moreover have "subst_lines R re repl global (drop i ?L)
          = (v # fst (subst_lines R re repl global (drop (Suc i) ?L)),
             snd (subst_lines R re repl global (drop (Suc i) ?L)) + 1)"
        using \<open>global\<close> False by (simp add: dropi v_def[symmetric] split: prod.splits)
      ultimately show ?thesis using upd[of "c + 1"] by (simp del: replace_loop.simps)
    qed
  next
    case False
    show ?thesis
    proof (cases "MatchString R re line")
      case True
      have "replace_loop R re repl global s i h c = (h1, c + 1)"
        using i \<open>\<not> global\<close> True
        by (subst replace_loop.simps) (simp del: replace_loop.simps add: line_def[symmetric] v_def[symmetric] h1_def)
      moreover have "subst_lines R re repl global (drop i ?L) = (v # drop (Suc i) ?L, 1)"
        using \<open>\<not> global\<close> True by (simp add: dropi v_def[symmetric])
      moreover have "?L[i := v] = take i ?L @ v # drop (Suc i) ?L"
        using i lenL by (simp add: upd_conv_take_nth_drop)
      ultimately show ?thesis using wf1 L1 len1 oth1 by (simp del: replace_loop.simps)
    next
      case nomatch: False
      have "replace_loop R re repl global s i h c = replace_loop R re repl global s (Suc i) h c"
        using i \<open>\<not> global\<close> nomatch by (subst replace_loop.simps) (simp del: replace_loop.simps add: line_def[symmetric])
      moreover have "subst_lines R re repl global (drop i ?L)
          = (line # fst (subst_lines R re repl global (drop (Suc i) ?L)),
             snd (subst_lines R re repl global (drop (Suc i) ?L)))"
        using \<open>\<not> global\<close> nomatch by (simp add: dropi split: prod.splits)
      ultimately show ?thesis using keep[of c] takeS by (simp del: replace_loop.simps)
    qed
  qed
qed

lemma search_loop_spec:
  assumes "wf_slice h s" and "i \<le> s_len s"
  shows "search_loop R re h s i ms
         = ms @ map (\<lambda>j. int j + 1) (filter (\<lambda>j. MatchString R re (slice_val h s ! j)) [i..<s_len s])"
  using assms
proof (induction "s_len s - i" arbitrary: i ms)
  case 0
  then show ?case by simp
next
  case (Suc n)
  have i: "i < s_len s" using Suc.hyps(2) by simp
  have n: "n = s_len s - Suc i" using Suc.hyps(2) by simp
  have nth: "slice_val h s ! i = (h ! s_arr s) ! (s_off s + i)"
    using Suc.prems(1) i by (rule slice_val_nth)
  have up: "[i..<s_len s] = i # [Suc i..<s_len s]" using i by (simp add: upt_conv_Cons)
  have IH: "search_loop R re h s (Suc i) ms'
         = ms' @ map (\<lambda>j. int j + 1) (filter (\<lambda>j. MatchString R re (slice_val h s ! j)) [Suc i..<s_len s])" for ms'
    using Suc.hyps(1)[OF n Suc.prems(1), of ms'] i by (simp del: search_loop.simps)
  show ?case
    using i by (subst search_loop.simps) (simp del: search_loop.simps add: up nth IH)
qed

section \<open>Insertion, deletion and failing calls\<close>

lemma wf_abc_state: "wf_state abc_state"
  by (simp add: wf_state_def wf_slice_def abc_state_def)

lemma lines_of_abc_state: "lines_of abc_state = [''a'', ''b'', ''c'']"
  by (simp add: lines_of_def slice_val_def abc_state_def)

text \<open>
  C4. For every well-formed buffer, every position \<open>pos\<close> with
  \<open>1 \<le> pos \<le> len(lines) + 1\<close> and every text, \<open>insertLine\<close> at \<open>pos\<close> succeeds, the
  following \<open>deleteLine\<close> at \<open>pos\<close> succeeds, and the line sequence is then the one before
  the insert.
\<close>

theorem insert_then_delete_restores:
  assumes "wf_state st" and "1 \<le> pos" and "pos \<le> int (length (lines_of st)) + 1"
  shows "\<exists>st1 st2. insertLine g pos t st = (Inr (), st1) \<and>
                   deleteLine g pos st1 = (Inr (), st2) \<and>
                   lines_of st2 = lines_of st"
proof -
  define k where "k = nat (pos - 1)"
  obtain st1 where i: "insertLine g pos t st = (Inr (), st1)"
    and l1: "lines_of st1 = take k (lines_of st) @ t # drop k (lines_of st)"
    and wf1: "wf_state st1"
    using insertLine_ok[OF assms, of g t] by (auto simp: k_def)
  have k: "k \<le> length (lines_of st)" using assms(2,3) by (simp add: k_def)
  have len1: "length (lines_of st1) = length (lines_of st) + 1"
    using k by (simp add: l1)
  have hi1: "pos \<le> int (length (lines_of st1))"
    using assms(3) len1 by simp
  obtain st2 where d: "deleteLine g pos st1 = (Inr (), st2)"
    and l2: "lines_of st2 = take k (lines_of st1) @ drop (k + 1) (lines_of st1)"
    using deleteLine_ok[OF wf1 assms(2) hi1, of g] by (auto simp: k_def)
  have "take k (lines_of st1) = take k (lines_of st)"
    using k by (simp add: l1)
  moreover have "drop (k + 1) (lines_of st1) = drop k (lines_of st)"
    using k by (simp add: l1)
  ultimately have "lines_of st2 = lines_of st"
    by (simp add: l2)
  then show ?thesis using i d by blast
qed

theorem insert_then_delete_restores_witness:
  "wf_state abc_state \<and> (1::int) \<le> 2 \<and> 2 \<le> int (length (lines_of abc_state)) + 1 \<and>
   (\<exists>st1 st2. insertLine doubling 2 ''x'' abc_state = (Inr (), st1) \<and>
              deleteLine doubling 2 st1 = (Inr (), st2) \<and>
              lines_of st2 = lines_of abc_state)"
proof -
  have a: "wf_state abc_state" by (rule wf_abc_state)
  have b: "(1::int) \<le> 2" by simp
  have c: "2 \<le> int (length (lines_of abc_state)) + 1" by (simp add: lines_of_abc_state)
  show ?thesis
    using a b c insert_then_delete_restores[OF a b c, of doubling "''x''"] by blast
qed

text \<open>
  C10. On a well-formed buffer with \<open>n\<close> lines, \<open>insertLine\<close> and \<open>pasteLines\<close> with a
  position outside \<open>1..n+1\<close>, \<open>deleteLine\<close> and \<open>replaceLine\<close> with a position outside
  \<open>1..n\<close>, \<open>copyLines\<close> with a range that is not \<open>1 \<le> start \<le> end \<le> n\<close>, and \<open>search\<close>
  and \<open>searchAndReplace\<close> with a pattern that does not compile, each return their error
  and leave the store and the editor, hence the line sequence and the modified flag,
  exactly as they were.
\<close>

theorem failing_operations_change_nothing:
  assumes "wf_state st" and "n = int (length (lines_of st))"
  shows "(pos < 1 \<or> n + 1 < pos \<longrightarrow>
            insertLine g pos t st = (Inl (InvalidLineNumber pos), st) \<and>
            pasteLines g pos block st = (Inl (InvalidLineNumber pos), st)) \<and>
         (pos < 1 \<or> n < pos \<longrightarrow>
            deleteLine g pos st = (Inl (InvalidLineNumber pos), st) \<and>
            replaceLine pos t st = (Inl (InvalidLineNumber pos), st)) \<and>
         (\<not> (1 \<le> start \<and> start \<le> end \<and> end \<le> n) \<longrightarrow>
            copyLines start end st = (Inl (InvalidLineRange start end), st)) \<and>
         (Compile R pattern = None \<longrightarrow>
            search R pattern st = (Inl InvalidRegexPattern, st) \<and>
            searchAndReplace R pattern replacement global st = (Inl InvalidRegexPattern, st))"
proof -
  obtain h fe where st: "st = (h, fe)" by (cases st)
  have "wf_slice h (lines fe)" using assms(1) by (simp add: wf_state_def st)
  then have n: "n = int (s_len (lines fe))"
    using assms(2) by (simp add: lines_of_def st length_slice_val)
  have 1: "pos < 1 \<or> n + 1 < pos \<Longrightarrow> insertLine g pos t st = (Inl (InvalidLineNumber pos), st)"
    by (auto simp: insertLine_def st n)
  have 2: "pos < 1 \<or> n + 1 < pos \<Longrightarrow> pasteLines g pos block st = (Inl (InvalidLineNumber pos), st)"
    by (auto simp: pasteLines_def st n)
  have 3: "pos < 1 \<or> n < pos \<Longrightarrow> deleteLine g pos st = (Inl (InvalidLineNumber pos), st)"
    by (auto simp: deleteLine_def st n)
  have 4: "pos < 1 \<or> n < pos \<Longrightarrow> replaceLine pos t st = (Inl (InvalidLineNumber pos), st)"
    by (auto simp: replaceLine_def st n)
  have 5: "\<not> (1 \<le> start \<and> start \<le> end \<and> end \<le> n) \<Longrightarrow>
            copyLines start end st = (Inl (InvalidLineRange start end), st)"
    by (auto simp: copyLines_def st n Let_def)
  have 6: "Compile R pattern = None \<Longrightarrow> search R pattern st = (Inl InvalidRegexPattern, st)"
    by (simp add: search_def st)
  have 7: "Compile R pattern = None \<Longrightarrow>
            searchAndReplace R pattern replacement global st = (Inl InvalidRegexPattern, st)"
    by (simp add: searchAndReplace_def st)
  show ?thesis using 1 2 3 4 5 6 7 by blast
qed

theorem failing_operations_change_nothing_witness:
  "wf_state abc_state \<and>
   insertLine doubling 7 ''x'' abc_state = (Inl (InvalidLineNumber 7), abc_state) \<and>
   pasteLines doubling 7 nil_slice abc_state = (Inl (InvalidLineNumber 7), abc_state) \<and>
   deleteLine doubling 7 abc_state = (Inl (InvalidLineNumber 7), abc_state) \<and>
   replaceLine 7 ''x'' abc_state = (Inl (InvalidLineNumber 7), abc_state) \<and>
   copyLines 2 1 abc_state = (Inl (InvalidLineRange 2 1), abc_state) \<and>
   Compile literal_regexp ''('' = None \<and>
   search literal_regexp ''('' abc_state = (Inl InvalidRegexPattern, abc_state) \<and>
   searchAndReplace literal_regexp ''('' ''x'' True abc_state = (Inl InvalidRegexPattern, abc_state)"
proof -
  have n: "(3::int) = int (length (lines_of abc_state))"
    by (simp add: lines_of_abc_state)
  have c: "Compile literal_regexp ''('' = None"
    by (simp add: literal_regexp_def literal_compile_def plain_char_def regexp_meta_def)
  show ?thesis
    using c wf_abc_state
      failing_operations_change_nothing[OF wf_abc_state n, of 7 doubling "''x''" nil_slice 2 1
        literal_regexp "''(''" "''x''" True]
    by simp
qed

section \<open>Substitution and search\<close>

lemma searchAndReplace_ok:
  assumes wf: "wf_state st" and re: "Compile R pattern = Some re"
  shows "\<exists>st'. searchAndReplace R pattern repl global st
                  = (Inr (snd (subst_lines R re repl global (lines_of st))), st') \<and>
           lines_of st' = fst (subst_lines R re repl global (lines_of st)) \<and>
           (modified (snd st') \<longleftrightarrow> modified (snd st) \<or> 0 < snd (subst_lines R re repl global (lines_of st))) \<and>
           wf_state st' \<and> filename (snd st') = filename (snd st) \<and> lines (snd st') = lines (snd st) \<and>
           length (fst st') = length (fst st) \<and>
           (\<forall>a. a \<noteq> s_arr (lines (snd st)) \<longrightarrow> fst st' ! a = fst st ! a)"
proof -
  obtain h fe where st: "st = (h, fe)" by (cases st)
  have wfs: "wf_slice h (lines fe)" using wf by (simp add: wf_state_def st)
  obtain h' where loop: "replace_loop R re repl global (lines fe) 0 h 0
        = (h', 0 + snd (subst_lines R re repl global (drop 0 (slice_val h (lines fe)))))"
    and val: "slice_val h' (lines fe)
        = take 0 (slice_val h (lines fe)) @ fst (subst_lines R re repl global (drop 0 (slice_val h (lines fe))))"
    and len: "length h' = length h" and oth: "\<forall>a. a \<noteq> s_arr (lines fe) \<longrightarrow> h' ! a = h ! a"
    and wf': "wf_slice h' (lines fe)"
    using replace_loop_spec[OF wfs, of 0 R re repl global 0] by blast
  show ?thesis
    using loop val len oth wf' re
    by (simp add: searchAndReplace_def st lines_of_def wf_state_def del: replace_loop.simps)
qed

lemma subst_lines_global:
  "subst_lines R re repl True ls
   = (map (\<lambda>l. ReplaceAllString R re l repl) ls,
      length (filter (\<lambda>l. ReplaceAllString R re l repl \<noteq> l) ls))"
  by (induction ls) (simp_all split: prod.splits)

lemma subst_lines_first_none:
  "\<forall>l \<in> set ls. \<not> MatchString R re l \<Longrightarrow> subst_lines R re repl False ls = (ls, 0)"
  by (induction ls) simp_all

lemma subst_lines_first_some:
  "i < length ls \<Longrightarrow> MatchString R re (ls ! i) \<Longrightarrow> \<forall>j < i. \<not> MatchString R re (ls ! j) \<Longrightarrow>
   subst_lines R re repl False ls = (ls[i := ReplaceAllString R re (ls ! i) repl], 1)"
proof (induction ls arbitrary: i)
  case Nil
  then show ?case by simp
next
  case (Cons l ls)
  show ?case
  proof (cases i)
    case 0
    then show ?thesis using Cons.prems by simp
  next
    case (Suc k)
    have "\<not> MatchString R re l" using Cons.prems(3) Suc by auto
    moreover have "\<forall>j<k. \<not> MatchString R re (ls ! j)" using Cons.prems(3) Suc by auto
    ultimately show ?thesis using Cons.IH[of k] Cons.prems(1,2) Suc by simp
  qed
qed

lemma subst_lines_first_count:
  "snd (subst_lines R re repl False ls) = (if \<exists>l \<in> set ls. MatchString R re l then 1 else 0)"
  by (induction ls) (auto split: prod.splits)

lemma count_changed_zip_map:
  "length (filter (\<lambda>(old, new). new \<noteq> old) (zip ls (map f ls))) = length (filter (\<lambda>l. f l \<noteq> l) ls)"
  by (induction ls) simp_all

lemma wf_one_line_state: "wf_state (one_line_state line m)"
  by (simp add: wf_state_def wf_slice_def one_line_state_def)

lemma lines_of_one_line_state: "lines_of (one_line_state line m) = [line]"
  by (simp add: lines_of_def slice_val_def one_line_state_def)

lemma literal_compile_plain:
  "Compile literal_regexp ''a'' = Some ''a''"
  "Compile literal_regexp ''b'' = Some ''b''"
  "Compile literal_regexp ''x'' = Some ''x''"
  "Compile literal_regexp ''ab'' = Some ''ab''"
  by (simp_all add: literal_regexp_def literal_compile_def plain_char_def regexp_meta_def)

lemma literal_regexp_sel:
  "MatchString literal_regexp = literal_match"
  "ReplaceAllString literal_regexp = literal_replace_all"
  by (simp_all add: literal_regexp_def)

lemma literal_match_Nil: "literal_match [] s"
  by (cases s) simp_all

lemma literal_replace_unmatched:
  "\<not> literal_match p s \<Longrightarrow> literal_replace_all p s repl = s"
proof (induction s)
  case Nil
  then show ?case by simp
next
  case (Cons c cs)
  have "p \<noteq> []" using Cons.prems literal_match_Nil by blast
  then show ?case using Cons by simp
qed

text \<open>
  What \<open>searchAndReplace\<close> computes on a well-formed buffer when the pattern compiles.
  The call succeeds with a counter, and the modified flag afterwards is true exactly when
  it was true before or the counter is positive. In the global mode every line is replaced
  by its replace-all result and the counter is the number of lines whose text changed. In
  the single mode the first matching line is replaced by its replace-all result, no other
  line changes, and the counter is 1 when some line matches and 0 otherwise.
\<close>

lemma substitute_count_and_modified:
  assumes "wf_state st" and "Compile R pattern = Some re"
  shows "\<exists>count st'. searchAndReplace R pattern repl global st = (Inr count, st') \<and>
     (modified (snd st') \<longleftrightarrow> modified (snd st) \<or> 0 < count) \<and>
     (if global
      then lines_of st' = map (\<lambda>l. ReplaceAllString R re l repl) (lines_of st) \<and>
           count = length (filter (\<lambda>(old, new). new \<noteq> old) (zip (lines_of st) (lines_of st')))
      else count = (if \<exists>l \<in> set (lines_of st). MatchString R re l then 1 else 0) \<and>
           ((\<forall>l \<in> set (lines_of st). \<not> MatchString R re l) \<longrightarrow> lines_of st' = lines_of st) \<and>
           (\<forall>i < length (lines_of st).
              MatchString R re (lines_of st ! i) \<and> (\<forall>j < i. \<not> MatchString R re (lines_of st ! j)) \<longrightarrow>
              lines_of st' = (lines_of st)[i := ReplaceAllString R re (lines_of st ! i) repl]))"
proof -
  let ?L = "lines_of st"
  obtain st' where run: "searchAndReplace R pattern repl global st
                  = (Inr (snd (subst_lines R re repl global ?L)), st')"
    and l': "lines_of st' = fst (subst_lines R re repl global ?L)"
    and m': "modified (snd st') \<longleftrightarrow> modified (snd st) \<or> 0 < snd (subst_lines R re repl global ?L)"
    using searchAndReplace_ok[OF assms, of repl global] by (elim exE conjE) (rule that)
  show ?thesis
  proof (cases global)
    case True
    have "lines_of st' = map (\<lambda>l. ReplaceAllString R re l repl) ?L"
      using l' True by (simp add: subst_lines_global)
    moreover have "snd (subst_lines R re repl global ?L)
        = length (filter (\<lambda>(old, new). new \<noteq> old) (zip ?L (map (\<lambda>l. ReplaceAllString R re l repl) ?L)))"
      using True by (simp add: subst_lines_global count_changed_zip_map)
    ultimately show ?thesis using run m' True by simp
  next
    case False
    have c: "snd (subst_lines R re repl global ?L) = (if \<exists>l \<in> set ?L. MatchString R re l then 1 else 0)"
      using False by (simp add: subst_lines_first_count)
    have none: "lines_of st' = ?L" if "\<forall>l \<in> set ?L. \<not> MatchString R re l"
      using subst_lines_first_none[OF that, of repl] l' False by simp
    have some: "lines_of st' = ?L[i := ReplaceAllString R re (?L ! i) repl]"
      if "i < length ?L" "MatchString R re (?L ! i)" "\<forall>j < i. \<not> MatchString R re (?L ! j)" for i
      using subst_lines_first_some[OF that, of repl] l' False by simp
    show ?thesis
      using run m' False c none some by (intro exI[of _ "snd (subst_lines R re repl global ?L)"] exI[of _ st']) simp
  qed
qed

text \<open>
  C1. The counter is to count the lines that were altered, and the modified flag is to be
  set exactly when it is positive; a line that matches but whose text the replacement
  leaves as it is must not count. The global branch of \<open>searchAndReplace\<close> does that
  (\<^verbatim>\<open>if newLine != line\<close>); the single branch does not compare the lines. On the buffer
  \<^verbatim>\<open>["a"]\<close>, not modified, with the pattern \<^verbatim>\<open>a\<close> and the replacement \<^verbatim>\<open>a\<close>: the single
  mode reports the count 1 and sets the modified flag although the line sequence is the
  same, where the global mode reports 0 and leaves the flag false.
\<close>

theorem substitute_first_counts_unchanged_line:
  "searchAndReplace literal_regexp ''a'' ''a'' False (one_line_state ''a'' False)
     = (Inr 1, one_line_state ''a'' True) \<and>
   lines_of (one_line_state ''a'' True) = lines_of (one_line_state ''a'' False) \<and>
   \<not> modified (snd (one_line_state ''a'' False)) \<and> modified (snd (one_line_state ''a'' True)) \<and>
   searchAndReplace literal_regexp ''a'' ''a'' True (one_line_state ''a'' False)
     = (Inr 0, one_line_state ''a'' False)"
  by (simp add: searchAndReplace_def one_line_state_def lines_of_def literal_compile_plain
      literal_regexp_sel)

text \<open>
  C7. On a well-formed buffer, \<open>search\<close> fails with \<open>InvalidRegexPattern\<close> exactly when
  the pattern does not compile. Otherwise it returns the positions \<open>i + 1\<close> of the lines
  that match, in strictly ascending order and each once; the result is empty when no line
  matches. In both cases the store and the editor, hence the lines and the modified flag,
  are as before.
\<close>

theorem search_positions:
  assumes "wf_state st"
  shows "snd (search R pattern st) = st \<and>
     (fst (search R pattern st) = Inl InvalidRegexPattern \<longleftrightarrow> Compile R pattern = None) \<and>
     (\<forall>re. Compile R pattern = Some re \<longrightarrow>
        (\<exists>ms. fst (search R pattern st) = Inr ms \<and>
           ms = map (\<lambda>i. int i + 1) (filter (\<lambda>i. MatchString R re (lines_of st ! i)) [0..<length (lines_of st)]) \<and>
           sorted_wrt (<) ms \<and>
           set ms = {int i + 1 |i. i < length (lines_of st) \<and> MatchString R re (lines_of st ! i)} \<and>
           ((\<forall>l \<in> set (lines_of st). \<not> MatchString R re l) \<longrightarrow> ms = [])))"
proof -
  obtain h fe where st: "st = (h, fe)" by (cases st)
  have wfs: "wf_slice h (lines fe)" using assms by (simp add: wf_state_def st)
  have len: "length (lines_of st) = s_len (lines fe)"
    using wfs by (simp add: lines_of_def st length_slice_val)
  have 1: "snd (search R pattern st) = st"
    by (simp add: search_def st split: option.splits)
  have 2: "fst (search R pattern st) = Inl InvalidRegexPattern \<longleftrightarrow> Compile R pattern = None"
    by (simp add: search_def st split: option.splits)
  have 3: "\<exists>ms. fst (search R pattern st) = Inr ms \<and>
           ms = map (\<lambda>i. int i + 1) (filter (\<lambda>i. MatchString R re (lines_of st ! i)) [0..<length (lines_of st)]) \<and>
           sorted_wrt (<) ms \<and>
           set ms = {int i + 1 |i. i < length (lines_of st) \<and> MatchString R re (lines_of st ! i)} \<and>
           ((\<forall>l \<in> set (lines_of st). \<not> MatchString R re l) \<longrightarrow> ms = [])"
    if re: "Compile R pattern = Some re" for re
  proof -
    define ms where "ms = map (\<lambda>i. int i + 1)
       (filter (\<lambda>i. MatchString R re (lines_of st ! i)) [0..<length (lines_of st)])"
    have run: "fst (search R pattern st) = Inr ms"
      using search_loop_spec[OF wfs, of 0 R re "[]"] re
      by (simp add: search_def st ms_def lines_of_def length_slice_val[OF wfs] del: search_loop.simps)
    have "sorted_wrt (<) (filter (\<lambda>i. MatchString R re (lines_of st ! i)) [0..<length (lines_of st)])"
      by (rule sorted_wrt_filter) simp
    then have srt: "sorted_wrt (<) ms"
      unfolding ms_def sorted_wrt_map by (rule sorted_wrt_mono_rel[rotated]) simp
    have st': "set ms = {int i + 1 |i. i < length (lines_of st) \<and> MatchString R re (lines_of st ! i)}"
      by (auto simp: ms_def)
    have emp: "ms = []" if "\<forall>l \<in> set (lines_of st). \<not> MatchString R re l"
      using that by (simp add: ms_def filter_empty_conv)
    show ?thesis using run srt st' emp ms_def by blast
  qed
  show ?thesis using 1 2 3 by blast
qed

theorem search_positions_witness:
  "wf_state abc_state \<and> Compile literal_regexp ''b'' = Some ''b'' \<and>
   search literal_regexp ''b'' abc_state = (Inr [2], abc_state) \<and>
   Compile literal_regexp ''('' = None \<and>
   search literal_regexp ''('' abc_state = (Inl InvalidRegexPattern, abc_state)"
proof -
  have a: "wf_state abc_state" by (simp add: wf_state_def wf_slice_def abc_state_def)
  have b: "Compile literal_regexp ''b'' = Some ''b''" by (rule literal_compile_plain)
  have c: "Compile literal_regexp ''('' = None"
    by (simp add: literal_regexp_def literal_compile_def plain_char_def regexp_meta_def)
  have L: "lines_of abc_state = [''a'', ''b'', ''c'']"
    by (simp add: lines_of_def slice_val_def abc_state_def)
  have up: "[0..<3] = [0, 1, 2]" by (simp add: upt_rec)
  note s = search_positions[OF a, of literal_regexp]
  have "fst (search literal_regexp ''b'' abc_state) = Inr [2]"
    using s[of "''b''"] b by (simp add: L literal_regexp_sel up)
  moreover have "fst (search literal_regexp ''('' abc_state) = Inl InvalidRegexPattern"
    using s[of "''(''"] c by simp
  moreover have "snd (search literal_regexp p abc_state) = abc_state" for p
    using s[of p] by simp
  ultimately show ?thesis using a b c by (simp add: prod_eq_iff)
qed

lemma replace_loop_global_fixed:
  assumes "\<forall>j. i \<le> j \<and> j < s_len s \<longrightarrow>
             ReplaceAllString R re ((h ! s_arr s) ! (s_off s + j)) repl = (h ! s_arr s) ! (s_off s + j)"
  shows "replace_loop R re repl True s i h c = (h, c)"
  using assms
proof (induction "s_len s - i" arbitrary: i)
  case 0
  then show ?case by simp
next
  case (Suc n)
  have i: "i < s_len s" using Suc.hyps(2) by simp
  have n: "n = s_len s - Suc i" using Suc.hyps(2) by simp
  have here: "ReplaceAllString R re ((h ! s_arr s) ! (s_off s + i)) repl = (h ! s_arr s) ! (s_off s + i)"
    using Suc.prems i by simp
  have "replace_loop R re repl True s (Suc i) h c = (h, c)"
    using Suc.hyps(1)[OF n] Suc.prems by simp
  then show ?case
    using i here by (subst replace_loop.simps) (simp del: replace_loop.simps)
qed

text \<open>
  C8, as amended. Let the regular-expression package return a string without a match
  unchanged, as Go's \<^verbatim>\<open>ReplaceAllString\<close> does. If, after a global substitution on a
  well-formed buffer, no line of the buffer matches the pattern any more, then a second
  global substitution with the same pattern and replacement reports the count 0 and
  leaves the store and the editor as they are.
\<close>

theorem global_substitute_twice:
  assumes "wf_state st" and "Compile R pattern = Some re"
    and "\<forall>l r. \<not> MatchString R re l \<longrightarrow> ReplaceAllString R re l r = l"
    and "searchAndReplace R pattern repl True st = (res, st1)"
    and "\<forall>l \<in> set (lines_of st1). \<not> MatchString R re l"
  shows "searchAndReplace R pattern repl True st1 = (Inr 0, st1)"
proof -
  obtain st' where run: "searchAndReplace R pattern repl True st
                  = (Inr (snd (subst_lines R re repl True (lines_of st))), st')"
    and wf': "wf_state st'"
    using searchAndReplace_ok[OF assms(1,2), of repl True] by (elim exE conjE) (rule that)
  have wf1: "wf_state st1" using run wf' assms(4) by simp
  obtain h fe where st1: "st1 = (h, fe)" by (cases st1)
  have wfs: "wf_slice h (lines fe)" using wf1 by (simp add: wf_state_def st1)
  have "ReplaceAllString R re ((h ! s_arr (lines fe)) ! (s_off (lines fe) + j)) repl
        = (h ! s_arr (lines fe)) ! (s_off (lines fe) + j)" if "j < s_len (lines fe)" for j
  proof -
    have "slice_val h (lines fe) ! j = (h ! s_arr (lines fe)) ! (s_off (lines fe) + j)"
      using wfs that by (rule slice_val_nth)
    moreover have "slice_val h (lines fe) ! j \<in> set (lines_of st1)"
      using that length_slice_val[OF wfs] by (simp add: lines_of_def st1)
    ultimately show ?thesis using assms(3,5) by simp
  qed
  then have "replace_loop R re repl True (lines fe) 0 h 0 = (h, 0)"
    by (intro replace_loop_global_fixed) simp
  then show ?thesis
    using assms(2) by (simp add: searchAndReplace_def st1 del: replace_loop.simps)
qed

theorem global_substitute_twice_witness:
  "wf_state (one_line_state ''abab'' False) \<and> Compile literal_regexp ''ab'' = Some ''ab'' \<and>
   searchAndReplace literal_regexp ''ab'' ''x'' True (one_line_state ''abab'' False)
     = (Inr 1, one_line_state ''xx'' True) \<and>
   lines_of (one_line_state ''xx'' True) = [''xx''] \<and>
   \<not> MatchString literal_regexp ''ab'' ''xx'' \<and>
   searchAndReplace literal_regexp ''ab'' ''x'' True (one_line_state ''xx'' True)
     = (Inr 0, one_line_state ''xx'' True)"
proof -
  have a: "wf_state (one_line_state ''abab'' False)" by (rule wf_one_line_state)
  have b: "Compile literal_regexp ''ab'' = Some ''ab''" by (rule literal_compile_plain)
  have c: "\<forall>l r. \<not> MatchString literal_regexp ''ab'' l \<longrightarrow> ReplaceAllString literal_regexp ''ab'' l r = l"
    by (simp add: literal_regexp_sel literal_replace_unmatched)
  have d: "searchAndReplace literal_regexp ''ab'' ''x'' True (one_line_state ''abab'' False)
     = (Inr 1, one_line_state ''xx'' True)"
    by (simp add: searchAndReplace_def one_line_state_def b literal_regexp_sel)
  have e: "\<forall>l \<in> set (lines_of (one_line_state ''xx'' True)). \<not> MatchString literal_regexp ''ab'' l"
    by (simp add: lines_of_one_line_state literal_regexp_sel)
  have f: "\<not> MatchString literal_regexp ''ab'' ''xx''"
    by (simp add: literal_regexp_sel)
  show ?thesis
    using a b d f lines_of_one_line_state[of "''xx''" True] global_substitute_twice[OF a b c d e]
    by simp
qed

text \<open>
  C8 as stated fails: the replacement \<^verbatim>\<open>a\<close> does not match the pattern \<^verbatim>\<open>ab\<close>, the
  first global substitution turns the line \<^verbatim>\<open>abb\<close> into \<^verbatim>\<open>ab\<close>, and the second one
  changes that line again, to \<^verbatim>\<open>a\<close>, and reports the count 1.
\<close>

theorem global_substitute_twice_changes_again:
  "\<not> MatchString literal_regexp ''ab'' ''a'' \<and>
   searchAndReplace literal_regexp ''ab'' ''a'' True (one_line_state ''abb'' False)
     = (Inr 1, one_line_state ''ab'' True) \<and>
   searchAndReplace literal_regexp ''ab'' ''a'' True (one_line_state ''ab'' True)
     = (Inr 1, one_line_state ''a'' True) \<and>
   lines_of (one_line_state ''ab'' True) = [''ab''] \<and>
   lines_of (one_line_state ''a'' True) = [''a'']"
  by (simp add: searchAndReplace_def one_line_state_def lines_of_def slice_val_def
      literal_compile_plain literal_regexp_sel)

section \<open>The scenario of the specification\<close>

text \<open>
  C2. From any well-formed buffer holding \<^verbatim>\<open>["a", "b", "c"]\<close>, under any growth policy:
  \<open>insertLine 2 "x"\<close>, \<open>deleteLine 1\<close>, \<open>copyLines 1 2\<close>, \<open>pasteLines 4\<close> of the copy, the
  global substitution of \<^verbatim>\<open>b\<close> by \<^verbatim>\<open>B\<close> and the single substitution of \<^verbatim>\<open>x\<close> by \<^verbatim>\<open>Z\<close>
  all succeed and pass through the line sequences of the specification; the two
  substitutions count 2 and 1.
\<close>

theorem scenario_abc:
  assumes "wf_state st" and "lines_of st = [''a'', ''b'', ''c'']"
  shows "\<exists>st1 st2 clip st3 st4 st5 st6.
     insertLine g 2 ''x'' st = (Inr (), st1) \<and> lines_of st1 = [''a'', ''x'', ''b'', ''c''] \<and>
     deleteLine g 1 st1 = (Inr (), st2) \<and> lines_of st2 = [''x'', ''b'', ''c''] \<and>
     copyLines 1 2 st2 = (Inr clip, st3) \<and> slice_val (fst st3) clip = [''x'', ''b''] \<and>
     lines_of st3 = [''x'', ''b'', ''c''] \<and>
     pasteLines g 4 clip st3 = (Inr (), st4) \<and> lines_of st4 = [''x'', ''b'', ''c'', ''x'', ''b''] \<and>
     searchAndReplace literal_regexp ''b'' ''B'' True st4 = (Inr 2, st5) \<and>
     lines_of st5 = [''x'', ''B'', ''c'', ''x'', ''B''] \<and>
     searchAndReplace literal_regexp ''x'' ''Z'' False st5 = (Inr 1, st6) \<and>
     lines_of st6 = [''Z'', ''B'', ''c'', ''x'', ''B'']"
proof -
  obtain st1 where i: "insertLine g 2 ''x'' st = (Inr (), st1)"
    and l1: "lines_of st1 = [''a'', ''x'', ''b'', ''c'']" and wf1: "wf_state st1"
    using insertLine_ok[OF assms(1), of 2 g "''x''"] by (auto simp: assms(2))
  obtain st2 where d: "deleteLine g 1 st1 = (Inr (), st2)"
    and l2: "lines_of st2 = [''x'', ''b'', ''c'']" and wf2: "wf_state st2"
    using deleteLine_ok[OF wf1, of 1 g] by (auto simp: l1)
  obtain clip h3 where c: "copyLines 1 2 st2 = (Inr clip, (h3, snd st2))"
    and vc: "slice_val h3 clip = [''x'', ''b'']" and wfc: "wf_slice h3 clip"
    and ac: "s_arr clip = length (fst st2)" and len3: "length h3 = length (fst st2) + 1"
    and fr3: "\<forall>a < length (fst st2). h3 ! a = fst st2 ! a"
    using copyLines_ok[OF wf2, of 1 2] by (auto simp: l2)
  define st3 where "st3 = (h3, snd st2)"
  have arr2: "s_arr (lines (snd st2)) < length (fst st2)"
    using wf2 by (simp add: wf_state_def wf_slice_def)
  have same3: "h3 ! s_arr (lines (snd st2)) = fst st2 ! s_arr (lines (snd st2))"
    using fr3 arr2 by simp
  have l3: "lines_of st3 = [''x'', ''b'', ''c'']"
    using l2 same3 by (simp add: st3_def lines_of_def slice_val_def)
  have wf3: "wf_state st3"
    using wf2 same3 len3 by (simp add: st3_def wf_state_def wf_slice_def)
  have wfc3: "wf_slice (fst st3) clip" using wfc by (simp add: st3_def)
  have vc3: "slice_val (fst st3) clip = [''x'', ''b'']" using vc by (simp add: st3_def)
  have ne3: "s_arr clip \<noteq> s_arr (lines (snd st3))"
    using ac arr2 by (simp add: st3_def)
  obtain st4 where p: "pasteLines g 4 clip st3 = (Inr (), st4)"
    and l4: "lines_of st4 = [''x'', ''b'', ''c'', ''x'', ''b'']" and wf4: "wf_state st4"
    using pasteLines_ok[OF wf3 wfc3 ne3, of 4 g] vc3 by (auto simp: l3)
  have cb: "Compile literal_regexp ''b'' = Some ''b''" and cx: "Compile literal_regexp ''x'' = Some ''x''"
    by (rule literal_compile_plain)+
  obtain st5 where g5: "searchAndReplace literal_regexp ''b'' ''B'' True st4
        = (Inr (snd (subst_lines literal_regexp ''b'' ''B'' True (lines_of st4))), st5)"
    and l5: "lines_of st5 = fst (subst_lines literal_regexp ''b'' ''B'' True (lines_of st4))"
    and wf5: "wf_state st5"
    using searchAndReplace_ok[OF wf4 cb, of "''B''" True] by (elim exE conjE) (rule that)
  have s5: "subst_lines literal_regexp ''b'' ''B'' True [''x'', ''b'', ''c'', ''x'', ''b'']
        = ([''x'', ''B'', ''c'', ''x'', ''B''], 2)"
    by (simp add: literal_regexp_sel Let_def)
  obtain st6 where g6: "searchAndReplace literal_regexp ''x'' ''Z'' False st5
        = (Inr (snd (subst_lines literal_regexp ''x'' ''Z'' False (lines_of st5))), st6)"
    and l6: "lines_of st6 = fst (subst_lines literal_regexp ''x'' ''Z'' False (lines_of st5))"
    using searchAndReplace_ok[OF wf5 cx, of "''Z''" False] by (elim exE conjE) (rule that)
  have s6: "subst_lines literal_regexp ''x'' ''Z'' False [''x'', ''B'', ''c'', ''x'', ''B'']
        = ([''Z'', ''B'', ''c'', ''x'', ''B''], 1)"
    by (simp add: literal_regexp_sel Let_def)
  have l5': "lines_of st5 = [''x'', ''B'', ''c'', ''x'', ''B'']" using l5 unfolding l4 s5 by simp
  have g5': "searchAndReplace literal_regexp ''b'' ''B'' True st4 = (Inr 2, st5)"
    using g5 unfolding l4 s5 by simp
  have l6': "lines_of st6 = [''Z'', ''B'', ''c'', ''x'', ''B'']" using l6 unfolding l5' s6 by simp
  have g6': "searchAndReplace literal_regexp ''x'' ''Z'' False st5 = (Inr 1, st6)"
    using g6 unfolding l5' s6 by simp
  have c': "copyLines 1 2 st2 = (Inr clip, st3)" using c by (simp add: st3_def)
  have vc': "slice_val (fst st3) clip = [''x'', ''b'']" using vc by (simp add: st3_def)
  show ?thesis
    using i l1 d l2 c' vc' l3 p l4 g5' l5' g6' l6' by blast
qed

theorem scenario_abc_witness:
  "wf_state abc_state \<and> lines_of abc_state = [''a'', ''b'', ''c''] \<and>
   (\<exists>st1 st2 clip st3 st4 st5 st6.
     insertLine doubling 2 ''x'' abc_state = (Inr (), st1) \<and> lines_of st1 = [''a'', ''x'', ''b'', ''c''] \<and>
     deleteLine doubling 1 st1 = (Inr (), st2) \<and> lines_of st2 = [''x'', ''b'', ''c''] \<and>
     copyLines 1 2 st2 = (Inr clip, st3) \<and> slice_val (fst st3) clip = [''x'', ''b''] \<and>
     lines_of st3 = [''x'', ''b'', ''c''] \<and>
     pasteLines doubling 4 clip st3 = (Inr (), st4) \<and> lines_of st4 = [''x'', ''b'', ''c'', ''x'', ''b''] \<and>
     searchAndReplace literal_regexp ''b'' ''B'' True st4 = (Inr 2, st5) \<and>
     lines_of st5 = [''x'', ''B'', ''c'', ''x'', ''B''] \<and>
     searchAndReplace literal_regexp ''x'' ''Z'' False st5 = (Inr 1, st6) \<and>
     lines_of st6 = [''Z'', ''B'', ''c'', ''x'', ''B''])"
  using wf_abc_state lines_of_abc_state scenario_abc[OF wf_abc_state lines_of_abc_state, of doubling]
  by blast

section \<open>What a command may touch\<close>

lemma length_lines_of: "wf_state st \<Longrightarrow> length (lines_of st) = s_len (lines (snd st))"
  by (simp add: wf_state_def lines_of_def length_slice_val)

lemma buffer_step_refl: "wf_state st \<Longrightarrow> buffer_step st st"
  by (simp add: buffer_step_def)

lemma insertLine_invalid:
  "lineNum < 1 \<or> int (s_len (lines (snd st))) + 1 < lineNum \<Longrightarrow>
   insertLine g lineNum text st = (Inl (InvalidLineNumber lineNum), st)"
  by (cases st) (auto simp: insertLine_def)

lemma pasteLines_invalid:
  "lineNum < 1 \<or> int (s_len (lines (snd st))) + 1 < lineNum \<Longrightarrow>
   pasteLines g lineNum block st = (Inl (InvalidLineNumber lineNum), st)"
  by (cases st) (auto simp: pasteLines_def)

lemma deleteLine_invalid:
  "lineNum < 1 \<or> int (s_len (lines (snd st))) < lineNum \<Longrightarrow>
   deleteLine g lineNum st = (Inl (InvalidLineNumber lineNum), st)"
  by (cases st) (auto simp: deleteLine_def)

lemma replaceLine_invalid:
  "lineNum < 1 \<or> int (s_len (lines (snd st))) < lineNum \<Longrightarrow>
   replaceLine lineNum text st = (Inl (InvalidLineNumber lineNum), st)"
  by (cases st) (auto simp: replaceLine_def)

lemma copyLines_invalid:
  "\<not> (1 \<le> start \<and> start \<le> end \<and> end \<le> int (s_len (lines (snd st)))) \<Longrightarrow>
   copyLines start end st = (Inl (InvalidLineRange start end), st)"
  by (cases st) (auto simp: copyLines_def Let_def)

lemma insertLine_step:
  assumes "wf_state st" and "insertLine g lineNum text st = (res, st')"
  shows "buffer_step st st'"
proof (cases "1 \<le> lineNum \<and> lineNum \<le> int (length (lines_of st)) + 1")
  case True
  then show ?thesis
    using insertLine_ok[OF assms(1), of lineNum g "text"] assms(2) by (auto simp: buffer_step_def)
next
  case False
  then have "st' = st"
    using insertLine_invalid[of lineNum st g "text"] assms by (auto simp: length_lines_of)
  then show ?thesis using assms(1) by (simp add: buffer_step_refl)
qed

lemma deleteLine_step:
  assumes "wf_state st" and "deleteLine g lineNum st = (res, st')"
  shows "buffer_step st st'"
proof (cases "1 \<le> lineNum \<and> lineNum \<le> int (length (lines_of st))")
  case True
  then show ?thesis
    using deleteLine_ok[OF assms(1), of lineNum g] assms(2) by (auto simp: buffer_step_def)
next
  case False
  then have "st' = st"
    using deleteLine_invalid[of lineNum st g] assms by (auto simp: length_lines_of)
  then show ?thesis using assms(1) by (simp add: buffer_step_refl)
qed

lemma replaceLine_step:
  assumes "wf_state st" and "replaceLine lineNum text st = (res, st')"
  shows "buffer_step st st'"
proof (cases "1 \<le> lineNum \<and> lineNum \<le> int (length (lines_of st))")
  case True
  then show ?thesis
    using replaceLine_ok[OF assms(1), of lineNum "text"] assms(2) by (auto simp: buffer_step_def)
next
  case False
  then have "st' = st"
    using replaceLine_invalid[of lineNum st "text"] assms by (auto simp: length_lines_of)
  then show ?thesis using assms(1) by (simp add: buffer_step_refl)
qed

lemma appendLine_step:
  assumes "wf_state st"
  shows "buffer_step st (appendLine g text st)"
  using appendLine_ok[OF assms, of g "text"] by (auto simp: buffer_step_def)

lemma searchAndReplace_step:
  assumes "wf_state st" and "searchAndReplace R pattern repl global st = (res, st')"
  shows "buffer_step st st' \<and> lines (snd st') = lines (snd st) \<and> length (fst st') = length (fst st)"
proof (cases "Compile R pattern")
  case None
  then have "st' = st" using assms(2) by (cases st) (simp add: searchAndReplace_def)
  then show ?thesis using assms(1) by (simp add: buffer_step_refl)
next
  case (Some re)
  show ?thesis
    using searchAndReplace_ok[OF assms(1) Some, of repl global] assms(2)
    by (auto simp: buffer_step_def)
qed

lemma search_step: "search R pattern st = (res, st') \<Longrightarrow> st' = st"
  by (cases st) (auto simp: search_def split: option.splits)

lemma pasteLines_step:
  assumes "wf_state st" and "wf_slice (fst st) block" and "s_arr block \<noteq> s_arr (lines (snd st))"
    and "s_len block = s_cap block"
    and "pasteLines g lineNum block st = (res, st')"
  shows "buffer_step st st' \<and> wf_slice (fst st') block"
proof (cases "1 \<le> lineNum \<and> lineNum \<le> int (length (lines_of st)) + 1")
  case True
  then show ?thesis
    using pasteLines_ok[OF assms(1,2,3), of lineNum g] assms(4,5) by (auto simp: buffer_step_def)
next
  case False
  then have "st' = st"
    using pasteLines_invalid[of lineNum st g block] assms by (auto simp: length_lines_of)
  then show ?thesis using assms(1,2) by (simp add: buffer_step_refl)
qed

lemma save_state:
  assumes "save fs st = (res, fs', st')"
  shows "fst st' = fst st \<and> lines (snd st') = lines (snd st) \<and> filename (snd st') = filename (snd st) \<and>
         (res = Inr () \<longrightarrow> \<not> modified (snd st')) \<and> (res \<noteq> Inr () \<longrightarrow> st' = st)"
  using assms by (cases st) (auto simp: save_def split: option.splits prod.splits bool.splits)

lemma wf_session_step:
  assumes "wf_session ss" and "buffer_step (store ss, editor ss) st'"
    and "store ss' = fst st'" and "editor ss' = snd st'" and "clipboard ss' = clipboard ss"
  shows "wf_session ss'"
proof -
  have wf': "wf_state (store ss', editor ss')"
    using assms(2,3,4) by (simp add: buffer_step_def)
  have full: "s_len (clipboard ss') = s_cap (clipboard ss')"
    using assms(1,5) by (simp add: wf_session_def)
  have clip: "wf_slice (store ss') (clipboard ss') \<and> s_arr (clipboard ss') \<noteq> s_arr (lines (editor ss'))"
    if "s_len (clipboard ss') \<noteq> 0"
  proof -
    have wfc: "wf_slice (store ss) (clipboard ss)" and ne: "s_arr (clipboard ss) \<noteq> s_arr (lines (editor ss))"
      using assms(1,5) that by (simp_all add: wf_session_def)
    have lt: "s_arr (clipboard ss) < length (store ss)" using wfc by (simp add: wf_slice_def)
    have same: "store ss' ! s_arr (clipboard ss) = store ss ! s_arr (clipboard ss)"
      using assms(2,3) lt ne by (simp add: buffer_step_def)
    have len: "length (store ss) \<le> length (store ss')"
      using assms(2,3) by (simp add: buffer_step_def)
    have "wf_slice (store ss') (clipboard ss)"
      using wfc same len by (simp add: wf_slice_def)
    moreover have "s_arr (clipboard ss) \<noteq> s_arr (lines (editor ss'))"
      using assms(2,4) lt ne by (auto simp: buffer_step_def)
    ultimately show ?thesis using assms(5) by simp
  qed
  show ?thesis using wf' full clip by (simp add: wf_session_def)
qed

lemma exec_buffer_step:
  assumes "wf_session ss" and "exec R g cmd ss = (res, ss')"
  shows "buffer_step (store ss, editor ss) (store ss', editor ss') \<and> wf_session ss'"
proof -
  let ?st = "(store ss, editor ss)"
  have wf: "wf_state ?st" using assms(1) by (simp add: wf_session_def)
  have plain: "buffer_step ?st (store ss', editor ss') \<and> wf_session ss'"
    if "buffer_step ?st st'" "store ss' = fst st'" "editor ss' = snd st'" "clipboard ss' = clipboard ss" for st'
    using wf_session_step[OF assms(1) that] that by simp
  show ?thesis
  proof (cases cmd)
    case (Insert lineNum tx)
    obtain r st' where op: "insertLine g lineNum tx ?st = (r, st')"
      by (cases "insertLine g lineNum tx ?st")
    have "store ss' = fst st' \<and> editor ss' = snd st' \<and> clipboard ss' = clipboard ss"
      using assms(2) op Insert by (auto simp: exec_def Let_def with_state_def split: sum.splits)
    then show ?thesis using plain[OF insertLine_step[OF wf op]] by simp
  next
    case (Delete lineNum)
    obtain r st' where op: "deleteLine g lineNum ?st = (r, st')"
      by (cases "deleteLine g lineNum ?st")
    have "store ss' = fst st' \<and> editor ss' = snd st' \<and> clipboard ss' = clipboard ss"
      using assms(2) op Delete by (auto simp: exec_def Let_def with_state_def split: sum.splits)
    then show ?thesis using plain[OF deleteLine_step[OF wf op]] by simp
  next
    case (Replace lineNum tx)
    obtain r st' where op: "replaceLine lineNum tx ?st = (r, st')"
      by (cases "replaceLine lineNum tx ?st")
    have "store ss' = fst st' \<and> editor ss' = snd st' \<and> clipboard ss' = clipboard ss"
      using assms(2) op Replace by (auto simp: exec_def Let_def with_state_def split: sum.splits)
    then show ?thesis using plain[OF replaceLine_step[OF wf op]] by simp
  next
    case (Append tx)
    have "store ss' = fst (appendLine g tx ?st) \<and> editor ss' = snd (appendLine g tx ?st)
          \<and> clipboard ss' = clipboard ss"
      using assms(2) Append by (auto simp: exec_def Let_def with_state_def)
    then show ?thesis using plain[OF appendLine_step[OF wf, of g tx]] by simp
  next
    case (Search pattern)
    obtain r st' where op: "search R pattern ?st = (r, st')"
      by (cases "search R pattern ?st")
    have "store ss' = fst st' \<and> editor ss' = snd st' \<and> clipboard ss' = clipboard ss"
      using assms(2) op Search by (auto simp: exec_def Let_def with_state_def split: sum.splits)
    moreover have "buffer_step ?st st'"
      using search_step[OF op] wf by (simp add: buffer_step_refl)
    ultimately show ?thesis using plain[of st'] by simp
  next
    case (Substitute pattern repl)
    obtain r st' where op: "searchAndReplace R pattern repl False ?st = (r, st')"
      by (cases "searchAndReplace R pattern repl False ?st")
    have "store ss' = fst st' \<and> editor ss' = snd st' \<and> clipboard ss' = clipboard ss"
      using assms(2) op Substitute by (auto simp: exec_def Let_def with_state_def split: sum.splits)
    then show ?thesis using plain[of st'] searchAndReplace_step[OF wf op] by simp
  next
    case (Global pattern repl)
    obtain r st' where op: "searchAndReplace R pattern repl True ?st = (r, st')"
      by (cases "searchAndReplace R pattern repl True ?st")
    have "store ss' = fst st' \<and> editor ss' = snd st' \<and> clipboard ss' = clipboard ss"
      using assms(2) op Global by (auto simp: exec_def Let_def with_state_def split: sum.splits)
    then show ?thesis using plain[of st'] searchAndReplace_step[OF wf op] by simp
  next
    case (Copy start end')
    show ?thesis
    proof (cases "1 \<le> start \<and> start \<le> end' \<and> end' \<le> int (length (lines_of ?st))")
      case True
      obtain c h' where op: "copyLines start end' ?st = (Inr c, (h', snd ?st))"
        and wfc: "wf_slice h' c" and full: "s_len c = s_cap c" and arr: "s_arr c = length (fst ?st)"
        and len: "length h' = length (fst ?st) + 1"
        and fr: "\<forall>a < length (fst ?st). h' ! a = fst ?st ! a"
        using copyLines_ok[OF wf, of start end'] True by auto
      have ss': "store ss' = h'" "editor ss' = editor ss" "clipboard ss' = c"
        using assms(2) op Copy by (auto simp: exec_def Let_def with_state_def)
      have lt: "s_arr (lines (editor ss)) < length (store ss)"
        using wf by (simp add: wf_state_def wf_slice_def)
      have wf': "wf_state (h', editor ss)"
        using wf fr len lt by (simp add: wf_state_def wf_slice_def)
      have step: "buffer_step ?st (store ss', editor ss')"
        using wf' fr len by (simp add: buffer_step_def ss')
      have "wf_session ss'"
        using wf' wfc full arr lt by (simp add: wf_session_def ss')
      then show ?thesis using step by simp
    next
      case False
      then have "copyLines start end' ?st = (Inl (InvalidLineRange start end'), ?st)"
        using copyLines_invalid[of start end' ?st] wf by (simp add: length_lines_of)
      then have "store ss' = fst ?st \<and> editor ss' = snd ?st \<and> clipboard ss' = clipboard ss"
        using assms(2) Copy by (auto simp: exec_def Let_def with_state_def)
      then show ?thesis using plain[OF buffer_step_refl[OF wf]] by simp
    qed
  next
    case (Paste lineNum)
    show ?thesis
    proof (cases "s_len (clipboard ss) = 0")
      case True
      then have "ss' = ss" using assms(2) Paste by (simp add: exec_def Let_def)
      then show ?thesis using assms(1) wf by (simp add: buffer_step_refl)
    next
      case False
      obtain r st' where op: "pasteLines g lineNum (clipboard ss) ?st = (r, st')"
        by (cases "pasteLines g lineNum (clipboard ss) ?st")
      have c: "wf_slice (fst ?st) (clipboard ss)" "s_arr (clipboard ss) \<noteq> s_arr (lines (snd ?st))"
        "s_len (clipboard ss) = s_cap (clipboard ss)"
        using assms(1) False by (simp_all add: wf_session_def)
      have "store ss' = fst st' \<and> editor ss' = snd st' \<and> clipboard ss' = clipboard ss"
        using assms(2) op Paste False by (auto simp: exec_def Let_def with_state_def split: sum.splits)
      then show ?thesis using plain[of st'] pasteLines_step[OF wf c op] by simp
    qed
  next
    case Save
    obtain r fs' st' where op: "save (disk ss) ?st = (r, fs', st')"
      by (cases "save (disk ss) ?st") auto
    have s: "store ss' = fst st' \<and> editor ss' = snd st' \<and> clipboard ss' = clipboard ss"
      using assms(2) op Save by (auto simp: exec_def Let_def with_state_def split: sum.splits)
    have "buffer_step ?st st'"
      using save_state[OF op] wf by (cases st') (auto simp: buffer_step_def wf_state_def)
    then show ?thesis using plain[of st'] s by simp
  qed
qed

lemma run_keeps_array:
  assumes "wf_session ss" and "A < length (store ss)" and "A \<noteq> s_arr (lines (editor ss))"
  shows "store (run R g cmds ss) ! A = store ss ! A"
  using assms
proof (induction cmds arbitrary: ss)
  case Nil
  then show ?case by simp
next
  case (Cons cmd cmds)
  obtain res ss1 where e: "exec R g cmd ss = (res, ss1)" by (cases "exec R g cmd ss")
  have step: "buffer_step (store ss, editor ss) (store ss1, editor ss1)" and wf1: "wf_session ss1"
    using exec_buffer_step[OF Cons.prems(1) e] by simp_all
  have same: "store ss1 ! A = store ss ! A"
    using step Cons.prems(2,3) by (simp add: buffer_step_def)
  have lt: "A < length (store ss1)"
    using step Cons.prems(2) by (simp add: buffer_step_def)
  have ne: "A \<noteq> s_arr (lines (editor ss1))"
    using step Cons.prems(2,3) by (auto simp: buffer_step_def)
  show ?case
    using Cons.IH[OF wf1 lt ne] same e by simp
qed

lemma wf_abc_session: "wf_session (abc_session fs)"
  by (simp add: wf_session_def abc_session_def nil_slice_def wf_abc_state)

text \<open>
  C6. In a well-formed session whose buffer has \<open>n\<close> lines, \<open>copyLines start end\<close>
  succeeds when \<open>1 \<le> start \<le> end \<le> n\<close> and fails with \<open>InvalidLineRange\<close>, changing
  nothing, otherwise. When it succeeds, the slice it returns holds the lines \<open>start\<close> to
  \<open>end\<close>, the editor struct (and with it the modified flag) and the line sequence are
  unchanged, and after the command loop has stored the slice in the clipboard, no run of
  commands, whatever it does to the buffer, changes what the slice holds.
\<close>

theorem copyLines_snapshot:
  assumes "wf_session ss" and "st = (store ss, editor ss)" and "n = int (length (lines_of st))"
  shows "if 1 \<le> start \<and> start \<le> end \<and> end \<le> n
         then \<exists>c h'. copyLines start end st = (Inr c, (h', editor ss)) \<and>
                slice_val h' c = take (nat (end - start + 1)) (drop (nat (start - 1)) (lines_of st)) \<and>
                lines_of (h', editor ss) = lines_of st \<and>
                exec R g (Copy start end) ss = (Inr Done, ss\<lparr>store := h', clipboard := c\<rparr>) \<and>
                (\<forall>cmds. slice_val (store (run R g cmds (ss\<lparr>store := h', clipboard := c\<rparr>))) c
                           = slice_val h' c)
         else copyLines start end st = (Inl (InvalidLineRange start end), st)"
proof (cases "1 \<le> start \<and> start \<le> end \<and> end \<le> n")
  case True
  have wf: "wf_state st" using assms(1,2) by (simp add: wf_session_def)
  obtain c h' where op: "copyLines start end st = (Inr c, (h', snd st))"
    and val: "slice_val h' c = take (nat (end - start + 1)) (drop (nat (start - 1)) (lines_of st))"
    and arr: "s_arr c = length (fst st)" and len: "length h' = length (fst st) + 1"
    and fr: "\<forall>a < length (fst st). h' ! a = fst st ! a"
    using copyLines_ok[OF wf, of start "end"] True assms(3) by auto
  define ss1 where "ss1 = ss\<lparr>store := h', clipboard := c\<rparr>"
  have lt: "s_arr (lines (editor ss)) < length (store ss)"
    using wf by (simp add: wf_state_def wf_slice_def assms(2))
  have lines: "lines_of (h', editor ss) = lines_of st"
    using fr lt by (simp add: lines_of_def slice_val_def assms(2))
  have ex: "exec R g (Copy start end) ss = (Inr Done, ss1)"
    using op by (simp add: exec_def Let_def with_state_def assms(2) ss1_def)
  have wf1: "wf_session ss1"
    using exec_buffer_step[OF assms(1) ex] by simp
  have A: "s_arr c < length (store ss1)" "s_arr c \<noteq> s_arr (lines (editor ss1))"
    using arr len lt by (simp_all add: ss1_def assms(2))
  have keep: "slice_val (store (run R g cmds ss1)) c = slice_val h' c" for cmds
    using run_keeps_array[OF wf1 A, of R g cmds] by (simp add: slice_val_def ss1_def)
  show ?thesis
    using True op val lines ex keep by (simp add: ss1_def assms(2))
next
  case False
  have wf: "wf_state st" using assms(1,2) by (simp add: wf_session_def)
  show ?thesis
    using False copyLines_invalid[of start "end" st] assms(3) length_lines_of[OF wf] by simp
qed

lemma copy_23:
  "copyLines 2 3 abc_state
     = (Inr \<lparr>s_arr = 1, s_off = 0, s_len = 2, s_cap = 2\<rparr>,
        ([[''a'', ''b'', ''c'', []], [''b'', ''c'']], snd abc_state))"
  by (simp add: copyLines_def abc_state_def go_make_def slice_lit_def slice_expr_def go_copy_def
      write_at_def slice_val_def Let_def eval_nat_numeral)

theorem copyLines_snapshot_witness:
  "wf_session (abc_session open_disk) \<and>
   copyLines 2 3 abc_state
     = (Inr \<lparr>s_arr = 1, s_off = 0, s_len = 2, s_cap = 2\<rparr>,
        ([[''a'', ''b'', ''c'', []], [''b'', ''c'']], snd abc_state)) \<and>
   slice_val [[''a'', ''b'', ''c'', []], [''b'', ''c'']] \<lparr>s_arr = 1, s_off = 0, s_len = 2, s_cap = 2\<rparr>
     = [''b'', ''c''] \<and>
   slice_val
     (store (run literal_regexp doubling [Replace 2 ''Q'', Paste 1, Delete 3, Global ''c'' ''x'']
        ((abc_session open_disk)\<lparr>store := [[''a'', ''b'', ''c'', []], [''b'', ''c'']],
             clipboard := \<lparr>s_arr = 1, s_off = 0, s_len = 2, s_cap = 2\<rparr>\<rparr>)))
     \<lparr>s_arr = 1, s_off = 0, s_len = 2, s_cap = 2\<rparr>
     = [''b'', ''c''] \<and>
   copyLines 3 2 abc_state = (Inl (InvalidLineRange 3 2), abc_state)"
proof -
  let ?ss = "abc_session open_disk"
  have wf: "wf_session ?ss" by (rule wf_abc_session)
  have st: "abc_state = (store ?ss, editor ?ss)" by (simp add: abc_session_def)
  have n: "(3::int) = int (length (lines_of abc_state))" by (simp add: lines_of_abc_state)
  note t = copyLines_snapshot[OF wf st n, of _ _ literal_regexp doubling]
  have v: "slice_val [[''a'', ''b'', ''c'', []], [''b'', ''c'']] \<lparr>s_arr = 1, s_off = 0, s_len = 2, s_cap = 2\<rparr>
     = [''b'', ''c'']"
    by (simp add: slice_val_def)
  have keep: "slice_val
     (store (run literal_regexp doubling cmds
        (?ss\<lparr>store := [[''a'', ''b'', ''c'', []], [''b'', ''c'']],
             clipboard := \<lparr>s_arr = 1, s_off = 0, s_len = 2, s_cap = 2\<rparr>\<rparr>)))
     \<lparr>s_arr = 1, s_off = 0, s_len = 2, s_cap = 2\<rparr> = [''b'', ''c'']" for cmds
    using t[of 2 3] copy_23 v by auto
  have bad: "copyLines 3 2 abc_state = (Inl (InvalidLineRange 3 2), abc_state)"
    using t[of 3 2] by simp
  show ?thesis using wf copy_23 v keep bad by blast
qed

section \<open>Loading and saving\<close>

lemma append_all_val:
  assumes "wf_slice h s" and "append_all g tokens (h, s) = (h', s')"
  shows "slice_val h' s' = slice_val h s @ tokens \<and> wf_slice h' s'"
  using assms
proof (induction tokens arbitrary: h s)
  case Nil
  then show ?case by simp
next
  case (Cons token rest)
  obtain h1 s1 where a: "go_append g h s [token] = (h1, s1)" by (cases "go_append g h s [token]")
  have wf1: "wf_slice h1 s1" using Cons.prems(1) a by (rule go_append_wf)
  have v1: "slice_val h1 s1 = slice_val h s @ [token]" using Cons.prems(1) a by (rule go_append_val)
  have "append_all g rest (h1, s1) = (h', s')" using Cons.prems(2) a by simp
  then show ?case using Cons.IH[OF wf1] v1 by simp
qed

lemma NewFileEditor_missing:
  assumes "files fs name = None"
  shows "NewFileEditor g fs h name
         = Inr (h @ [[]], \<lparr>filename = name,
                  lines = \<lparr>s_arr = length h, s_off = 0, s_len = 0, s_cap = 0\<rparr>, modified = False\<rparr>)"
  using assms by (simp add: NewFileEditor_def loadFile_def slice_lit_def)

lemma NewFileEditor_readable:
  assumes "files fs name = Some f" and "readable f" and "scan_lines (content f) = (tokens, True)"
  shows "\<exists>st. NewFileEditor g fs h name = Inr st \<and> lines_of st = tokens \<and> \<not> modified (snd st) \<and>
              filename (snd st) = name \<and> wf_state st"
proof -
  define s0 where "s0 = \<lparr>s_arr = length h, s_off = 0, s_len = length ([]::string list), s_cap = length ([]::string list)\<rparr>"
  have lit: "slice_lit h [] = (h @ [[]], s0)" by (simp add: slice_lit_def s0_def)
  have wf0: "wf_slice (h @ [[]]) s0" using lit by (rule slice_lit_wf)
  have v0: "slice_val (h @ [[]]) s0 = []" using lit by (rule slice_lit_val)
  obtain h1 s1 where a: "append_all g tokens (h @ [[]], s0) = (h1, s1)"
    by (cases "append_all g tokens (h @ [[]], s0)")
  have r: "slice_val h1 s1 = tokens" "wf_slice h1 s1"
    using append_all_val[OF wf0 a] v0 by simp_all
  have "NewFileEditor g fs h name = Inr (h1, \<lparr>filename = name, lines = s1, modified = False\<rparr>)"
    using assms lit a
    by (simp add: NewFileEditor_def loadFile_def os_open_def del: scan_lines.simps)
  then show ?thesis using r by (simp add: lines_of_def wf_state_def)
qed

text \<open>
  C9. For every resource name, growth policy and store: when no file of that name exists,
  \<open>NewFileEditor\<close> succeeds, and the buffer it returns has no lines, is not modified,
  bears the name and is well formed.
\<close>

theorem load_missing_resource:
  assumes "files fs name = None"
  shows "\<exists>st. NewFileEditor g fs h name = Inr st \<and> lines_of st = [] \<and> \<not> modified (snd st) \<and>
              filename (snd st) = name \<and> wf_state st"
  using NewFileEditor_missing[OF assms, of g h]
  by (simp add: lines_of_def slice_val_def wf_state_def wf_slice_def)

theorem load_missing_resource_witness:
  "files open_disk ''notes.txt'' = None \<and>
   (\<exists>st. NewFileEditor doubling open_disk [] ''notes.txt'' = Inr st \<and> lines_of st = [] \<and>
         \<not> modified (snd st) \<and> filename (snd st) = ''notes.txt'' \<and> wf_state st)"
proof -
  have a: "files open_disk ''notes.txt'' = None" by (simp add: open_disk_def)
  show ?thesis using a load_missing_resource[OF a, of doubling "[]"] by blast
qed

subsection \<open>Scanning what is saved\<close>

lemma dropCR_id: "l = [] \<or> last l \<noteq> CHR 0x0D \<Longrightarrow> dropCR l = l"
  by (auto simp: dropCR_def)

lemma scan_lines_line:
  assumes "CHR 0x0A \<notin> set l" and "length l < MaxScanTokenSize"
  shows "scan_lines (l @ CHR 0x0A # rest)
         = (dropCR l # fst (scan_lines rest), snd (scan_lines rest))"
proof -
  have tw: "takeWhile (\<lambda>c. c \<noteq> CHR 0x0A) (l @ CHR 0x0A # rest) = l"
    using assms(1) by (auto simp: takeWhile_tail)
  have dw: "dropWhile (\<lambda>c. c \<noteq> CHR 0x0A) (l @ CHR 0x0A # rest) = CHR 0x0A # rest"
    using assms(1) by (auto simp: dropWhile_append3)
  show ?thesis
    using assms(2)
    by (subst scan_lines.simps) (simp add: tw dw Let_def split: prod.splits del: scan_lines.simps)
qed

lemma scan_lines_too_long:
  assumes "CHR 0x0A \<notin> set l" and "MaxScanTokenSize \<le> length l"
  shows "scan_lines (l @ CHR 0x0A # rest) = ([], False)"
proof -
  have tw: "takeWhile (\<lambda>c. c \<noteq> CHR 0x0A) (l @ CHR 0x0A # rest) = l"
    using assms(1) by (auto simp: takeWhile_tail)
  show ?thesis
    using assms(2)
    by (subst scan_lines.simps) (simp add: tw Let_def del: scan_lines.simps)
qed

lemma scan_lines_saved:
  assumes "\<forall>l \<in> set ls. CHR 0x0A \<notin> set l \<and> (l = [] \<or> last l \<noteq> CHR 0x0D) \<and> length l < MaxScanTokenSize"
  shows "scan_lines (concat (map (\<lambda>l. l @ [CHR 0x0A]) ls)) = (ls, True)"
  using assms
proof (induction ls)
  case Nil
  then show ?case by simp
next
  case (Cons l ls)
  have "scan_lines (l @ CHR 0x0A # concat (map (\<lambda>l. l @ [CHR 0x0A]) ls))
        = (dropCR l # ls, True)"
    using scan_lines_line[of l "concat (map (\<lambda>l. l @ [CHR 0x0A]) ls)"] Cons by simp
  then show ?case using Cons.prems by (simp add: dropCR_id del: scan_lines.simps)
qed

subsection \<open>The file after a save\<close>

lemma file_write_ok:
  assumes "file_write fs name bytes = (fs1, True)" and "files fs name = Some f"
  shows "files fs1 name = Some (f\<lparr>content := content f @ bytes\<rparr>)"
  using assms by (auto simp: file_write_def Let_def)

lemma WriteString_ok_empty:
  assumes "WriteString name str (fs, []) = ((fs1, pending1), True)" and "files fs name = Some f"
  shows "\<exists>f1. files fs1 name = Some f1 \<and> content f1 @ pending1 = content f @ str \<and>
              readable f1 = readable f"
proof (cases "length str \<le> defaultBufSize")
  case True
  then show ?thesis using assms by (subst (asm) WriteString.simps) auto
next
  case False
  obtain fs2 ok where w: "file_write fs name str = (fs2, ok)"
    by (cases "file_write fs name str")
  have "fs2 = fs1 \<and> pending1 = [] \<and> ok"
    using assms(1) False w by (subst (asm) WriteString.simps) simp
  then show ?thesis using file_write_ok[OF _ assms(2), of str fs1] w by simp
qed

lemma WriteString_ok:
  assumes "WriteString name str (fs, pending) = ((fs1, pending1), True)" and "files fs name = Some f"
  shows "\<exists>f1. files fs1 name = Some f1 \<and> content f1 @ pending1 = content f @ pending @ str \<and>
              readable f1 = readable f"
proof (cases "length str \<le> defaultBufSize - length pending")
  case True
  then show ?thesis using assms by (subst (asm) WriteString.simps) auto
next
  case False
  show ?thesis
  proof (cases "pending = []")
    case True
    then show ?thesis using WriteString_ok_empty[OF _ assms(2), of str fs1 pending1] assms(1) by simp
  next
    case ne: False
    define k where "k = defaultBufSize - length pending"
    obtain fs2 ok where w: "file_write fs name (pending @ take k str) = (fs2, ok)"
      by (cases "file_write fs name (pending @ take k str)")
    have ok: "ok" and rest: "WriteString name (drop k str) (fs2, []) = ((fs1, pending1), True)"
      using assms(1) False ne w
      by (subst (asm) WriteString.simps, simp add: k_def[symmetric] split: bool.splits del: WriteString.simps)+
    have f2: "files fs2 name = Some (f\<lparr>content := content f @ pending @ take k str\<rparr>)"
      using file_write_ok[OF _ assms(2), of "pending @ take k str" fs2] w ok by simp
    obtain f1 where "files fs1 name = Some f1"
      and "content f1 @ pending1 = content (f\<lparr>content := content f @ pending @ take k str\<rparr>) @ drop k str"
      and "readable f1 = readable (f\<lparr>content := content f @ pending @ take k str\<rparr>)"
      using WriteString_ok_empty[OF rest f2] by auto
    then show ?thesis by simp
  qed
qed

lemma write_lines_ok:
  assumes "write_lines name ls (fs, pending) = ((fs1, pending1), True)" and "files fs name = Some f"
  shows "\<exists>f1. files fs1 name = Some f1 \<and>
              content f1 @ pending1 = content f @ pending @ concat (map (\<lambda>l. l @ [CHR 0x0A]) ls) \<and>
              readable f1 = readable f"
  using assms
proof (induction ls arbitrary: fs pending f)
  case Nil
  then show ?case by simp
next
  case (Cons l ls)
  obtain fs2 p2 ok where w: "WriteString name (l @ [CHR 0x0A]) (fs, pending) = ((fs2, p2), ok)"
    by (cases "WriteString name (l @ [CHR 0x0A]) (fs, pending)") auto
  have ok: "ok" and rest: "write_lines name ls (fs2, p2) = ((fs1, pending1), True)"
    using Cons.prems(1) w by (auto split: bool.splits)
  obtain f2 where f2: "files fs2 name = Some f2"
    and c2: "content f2 @ p2 = content f @ pending @ l @ [CHR 0x0A]" and r2: "readable f2 = readable f"
    using WriteString_ok[OF _ Cons.prems(2), of "l @ [CHR 0x0A]" pending fs2 p2] w ok by auto
  obtain f1 where "files fs1 name = Some f1"
    and "content f1 @ pending1 = content f2 @ p2 @ concat (map (\<lambda>l. l @ [CHR 0x0A]) ls)"
    and "readable f1 = readable f2"
    using Cons.IH[OF rest f2] by auto
  then show ?case using c2 r2 by simp
qed

lemma Flush_ok:
  assumes "Flush name (fs, pending) = ((fs1, pending1), True)" and "files fs name = Some f"
  shows "files fs1 name = Some (f\<lparr>content := content f @ pending\<rparr>)"
proof -
  obtain fs2 ok where w: "file_write fs name pending = (fs2, ok)"
    by (cases "file_write fs name pending")
  have "fs2 = fs1 \<and> ok" using assms(1) w by (simp add: Flush_def)
  then show ?thesis using file_write_ok[OF _ assms(2), of pending fs1] w by simp
qed

lemma os_create_ok:
  assumes "os_create fs name = Some fs1"
  shows "\<exists>f1. files fs1 name = Some f1 \<and> content f1 = [] \<and>
              (readable f1 \<longleftrightarrow> (case files fs name of None \<Rightarrow> True | Some f \<Rightarrow> readable f))"
  using assms by (auto simp: os_create_def split: option.splits if_splits)

lemma save_ok:
  assumes "save fs st = (Inr (), fs', st')"
  shows "\<exists>f'. files fs' (filename (snd st)) = Some f' \<and>
              content f' = concat (map (\<lambda>l. l @ [CHR 0x0A]) (lines_of st)) \<and>
              (readable f' \<longleftrightarrow> (case files fs (filename (snd st)) of None \<Rightarrow> True | Some f \<Rightarrow> readable f))"
proof -
  obtain h fe where st: "st = (h, fe)" by (cases st)
  let ?name = "filename fe"
  obtain fs1 where cr: "os_create fs ?name = Some fs1"
    using assms by (auto simp: save_def st split: option.splits)
  obtain fs2 p2 ok2 where wl: "write_lines ?name (slice_val h (lines fe)) (fs1, []) = ((fs2, p2), ok2)"
    by (cases "write_lines ?name (slice_val h (lines fe)) (fs1, [])") auto
  have ok2: "ok2" using assms cr wl by (auto simp: save_def st split: bool.splits prod.splits)
  obtain fs3 p3 ok3 where fl: "Flush ?name (fs2, p2) = ((fs3, p3), ok3)"
    by (cases "Flush ?name (fs2, p2)") auto
  have ok3: "ok3" and fs': "fs' = fs3"
    using assms cr wl ok2 fl by (auto simp: save_def st split: bool.splits prod.splits)
  obtain f1 where f1: "files fs1 ?name = Some f1" and c1: "content f1 = []"
    and r1: "readable f1 \<longleftrightarrow> (case files fs ?name of None \<Rightarrow> True | Some f \<Rightarrow> readable f)"
    using os_create_ok[OF cr] by auto
  obtain f2 where f2: "files fs2 ?name = Some f2"
    and c2: "content f2 @ p2 = content f1 @ [] @ concat (map (\<lambda>l. l @ [CHR 0x0A]) (slice_val h (lines fe)))"
    and r2: "readable f2 = readable f1"
    using write_lines_ok[OF _ f1, of "slice_val h (lines fe)" "[]" fs2 p2] wl ok2 by auto
  have f3: "files fs3 ?name = Some (f2\<lparr>content := content f2 @ p2\<rparr>)"
    using Flush_ok[OF _ f2, of p2 fs3 p3] fl ok3 by simp
  show ?thesis
    using f3 c2 c1 r2 r1 by (simp add: fs' st lines_of_def)
qed

text \<open>
  C5, as amended. Let every line of the buffer be free of newline characters, not end in a
  carriage return, and be shorter than the scanner's 65536 bytes, and let the file, if it
  exists already, be readable. Then after a successful \<open>save\<close>, \<open>NewFileEditor\<close> on the
  same name succeeds and its buffer holds the line sequence that was saved.
\<close>

theorem save_then_load:
  assumes "save fs st = (Inr (), fs', st')"
    and "\<forall>l \<in> set (lines_of st).
           CHR 0x0A \<notin> set l \<and> (l = [] \<or> last l \<noteq> CHR 0x0D) \<and> length l < MaxScanTokenSize"
    and "\<forall>f. files fs (filename (snd st)) = Some f \<longrightarrow> readable f"
  shows "\<exists>st2. NewFileEditor g fs' h (filename (snd st)) = Inr st2 \<and> lines_of st2 = lines_of st \<and>
               \<not> modified (snd st2)"
proof -
  obtain f' where f': "files fs' (filename (snd st)) = Some f'"
    and c: "content f' = concat (map (\<lambda>l. l @ [CHR 0x0A]) (lines_of st))"
    and r: "readable f' \<longleftrightarrow> (case files fs (filename (snd st)) of None \<Rightarrow> True | Some f \<Rightarrow> readable f)"
    using save_ok[OF assms(1)] by auto
  have rd: "readable f'" using r assms(3) by (auto split: option.splits)
  have sc: "scan_lines (content f') = (lines_of st, True)"
    unfolding c using assms(2) by (rule scan_lines_saved)
  show ?thesis
    using NewFileEditor_readable[OF f' rd sc, of g h] by auto
qed

lemmas save_eval_defs = save_def os_create_def Flush_def file_write_def
  defaultBufSize_def slice_val_def Let_def

lemma save_abc_example: "fst (save notes_disk abc_state) = Inr ()"
  by (simp add: save_eval_defs abc_state_def notes_disk_def)

theorem save_then_load_witness:
  "fst (save notes_disk abc_state) = Inr () \<and>
   lines_of abc_state = [''a'', ''b'', ''c''] \<and>
   files notes_disk ''notes.txt'' = Some \<lparr>content = ''old'', readable = True, writable = True\<rparr> \<and>
   (\<exists>st2. NewFileEditor doubling (fst (snd (save notes_disk abc_state))) [] ''notes.txt'' = Inr st2 \<and>
          lines_of st2 = [''a'', ''b'', ''c''] \<and> \<not> modified (snd st2))"
proof -
  have s: "save notes_disk abc_state
           = (Inr (), fst (snd (save notes_disk abc_state)), snd (snd (save notes_disk abc_state)))"
    using save_abc_example by (simp add: prod_eq_iff)
  have l: "\<forall>l \<in> set (lines_of abc_state).
           CHR 0x0A \<notin> set l \<and> (l = [] \<or> last l \<noteq> CHR 0x0D) \<and> length l < MaxScanTokenSize"
    by (simp add: lines_of_abc_state MaxScanTokenSize_def)
  have f: "files notes_disk ''notes.txt'' = Some \<lparr>content = ''old'', readable = True, writable = True\<rparr>"
    by (simp add: notes_disk_def)
  have r: "\<forall>f. files notes_disk (filename (snd abc_state)) = Some f \<longrightarrow> readable f"
    by (simp add: notes_disk_def abc_state_def)
  have n: "filename (snd abc_state) = ''notes.txt''" by (simp add: abc_state_def)
  show ?thesis
    using save_abc_example lines_of_abc_state f save_then_load[OF s l r, of doubling "[]"]
    by (simp add: n lines_of_abc_state)
qed

lemma save_long_example: "fst (save open_disk (one_line_state long_line False)) = Inr ()"
  by (simp add: save_eval_defs one_line_state_def open_disk_def long_line_def)

text \<open>
  C5 as stated fails on a long line. A line of 65536 letters contains no line terminator
  and is saved without error, but it does not fit the scanner's buffer together with its
  newline: loading the file that was just saved fails with \<open>ErrorReadingFile\<close>.
\<close>

theorem save_then_load_long_line:
  "CHR 0x0A \<notin> set long_line \<and> CHR 0x0D \<notin> set long_line \<and>
   lines_of (one_line_state long_line False) = [long_line] \<and>
   fst (save open_disk (one_line_state long_line False)) = Inr () \<and>
   NewFileEditor doubling (fst (snd (save open_disk (one_line_state long_line False)))) []
       (filename (snd (one_line_state long_line False)))
     = Inl ErrorReadingFile"
proof -
  let ?st = "one_line_state long_line False"
  have nl: "CHR 0x0A \<notin> set long_line" "CHR 0x0D \<notin> set long_line"
    by (simp_all add: long_line_def)
  have s: "save open_disk ?st = (Inr (), fst (snd (save open_disk ?st)), snd (snd (save open_disk ?st)))"
    using save_long_example by (simp add: prod_eq_iff)
  obtain f' where f': "files (fst (snd (save open_disk ?st))) (filename (snd ?st)) = Some f'"
    and c: "content f' = concat (map (\<lambda>l. l @ [CHR 0x0A]) (lines_of ?st))"
    and r: "readable f' \<longleftrightarrow> (case files open_disk (filename (snd ?st)) of None \<Rightarrow> True | Some f \<Rightarrow> readable f)"
    using save_ok[OF s] by auto
  have rd: "readable f'" using r by (simp add: open_disk_def)
  have c': "content f' = long_line @ CHR 0x0A # []"
    using c by (simp add: lines_of_one_line_state)
  have "MaxScanTokenSize \<le> length long_line"
    by (simp add: MaxScanTokenSize_def long_line_def)
  then have sc: "scan_lines (content f') = ([], False)"
    unfolding c' using nl(1) by (intro scan_lines_too_long)
  have "NewFileEditor doubling (fst (snd (save open_disk ?st))) [] (filename (snd ?st))
        = Inl ErrorReadingFile"
    using f' rd sc by (simp add: NewFileEditor_def loadFile_def os_open_def slice_lit_def del: scan_lines.simps)
  then show ?thesis
    using nl save_long_example by (simp add: lines_of_one_line_state)
qed

text \<open>
  The carriage return: the line \<^verbatim>\<open>a\r\<close> is saved as \<^verbatim>\<open>a\r\n\<close>, and the scanner gives back
  \<^verbatim>\<open>a\<close>.
\<close>

lemma save_then_load_carriage_return:
  "fst (save open_disk (one_line_state [CHR ''a'', CHR 0x0D] False)) = Inr () \<and>
   (\<exists>st2. NewFileEditor doubling (fst (snd (save open_disk (one_line_state [CHR ''a'', CHR 0x0D] False)))) []
       ''notes.txt'' = Inr st2 \<and> lines_of st2 = [''a''])"
proof -
  let ?st = "one_line_state [CHR ''a'', CHR 0x0D] False"
  have e: "fst (save open_disk ?st) = Inr ()"
    by (simp add: save_eval_defs one_line_state_def open_disk_def)
  then have s: "save open_disk ?st = (Inr (), fst (snd (save open_disk ?st)), snd (snd (save open_disk ?st)))"
    by (simp add: prod_eq_iff)
  obtain f' where f': "files (fst (snd (save open_disk ?st))) (filename (snd ?st)) = Some f'"
    and c: "content f' = concat (map (\<lambda>l. l @ [CHR 0x0A]) (lines_of ?st))"
    and r: "readable f' \<longleftrightarrow> (case files open_disk (filename (snd ?st)) of None \<Rightarrow> True | Some f \<Rightarrow> readable f)"
    using save_ok[OF s] by auto
  have rd: "readable f'" using r by (simp add: open_disk_def)
  have n: "filename (snd ?st) = ''notes.txt''" by (simp add: one_line_state_def)
  have sc: "scan_lines (content f') = ([''a''], True)"
    using c by (simp add: lines_of_one_line_state MaxScanTokenSize_def dropCR_def)
  show ?thesis
    using e NewFileEditor_readable[OF f'[unfolded n] rd sc, of doubling "[]"] by auto
qed

section \<open>The sessions that can be reached\<close>

text \<open>
  Every editor that \<open>NewFileEditor\<close> returns is well formed and unmodified, so the command
  loop starts in a well-formed session; by \<open>exec_buffer_step\<close> it stays in one.
\<close>

lemma NewFileEditor_wf:
  assumes "NewFileEditor g fs h name = Inr st"
  shows "wf_state st \<and> \<not> modified (snd st) \<and> filename (snd st) = name"
proof -
  define s0 where "s0 = \<lparr>s_arr = length h, s_off = 0, s_len = length ([]::string list), s_cap = length ([]::string list)\<rparr>"
  have lit: "slice_lit h [] = (h @ [[]], s0)" by (simp add: slice_lit_def s0_def)
  have wf0: "wf_slice (h @ [[]]) s0" using lit by (rule slice_lit_wf)
  show ?thesis
  proof (cases "files fs name")
    case None
    then show ?thesis
      using assms lit wf0 by (auto simp: NewFileEditor_def loadFile_def wf_state_def)
  next
    case (Some f)
    obtain tokens ok where sc: "scan_lines (content f) = (tokens, ok)"
      by (cases "scan_lines (content f)")
    obtain h1 s1 where a: "append_all g tokens (h @ [[]], s0) = (h1, s1)"
      by (cases "append_all g tokens (h @ [[]], s0)")
    have "wf_slice h1 s1" using append_all_val[OF wf0 a] by simp
    moreover have "st = (h1, \<lparr>filename = name, lines = s1, modified = False\<rparr>)"
      using assms Some lit sc a
      by (auto simp: NewFileEditor_def loadFile_def os_open_def Let_def split: if_splits simp del: scan_lines.simps)
    ultimately show ?thesis by (simp add: wf_state_def)
  qed
qed

lemma initial_session_wf:
  assumes "NewFileEditor g fs h name = Inr st"
  shows "wf_session \<lparr>store = fst st, editor = snd st, clipboard = nil_slice, disk = fs\<rparr>"
  using NewFileEditor_wf[OF assms] by (simp add: wf_session_def nil_slice_def)

lemma run_wf_session: "wf_session ss \<Longrightarrow> wf_session (run R g cmds ss)"
proof (induction cmds arbitrary: ss)
  case Nil
  then show ?case by simp
next
  case (Cons cmd cmds)
  obtain res ss1 where e: "exec R g cmd ss = (res, ss1)" by (cases "exec R g cmd ss")
  have "wf_session ss1" using exec_buffer_step[OF Cons.prems e] by simp
  then show ?case using Cons.IH e by simp
qed

section \<open>The modified flag\<close>

text \<open>The flag under each method; none of this needs a well-formed state.\<close>

lemma insertLine_modified:
  assumes "insertLine g lineNum tx st = (res, st')"
  shows "(res = Inr () \<longrightarrow> modified (snd st')) \<and> (modified (snd st) \<longrightarrow> modified (snd st'))"
  using assms
  by (cases st) (auto simp: insertLine_def Let_def split: if_splits option.splits prod.splits)

lemma deleteLine_modified:
  assumes "deleteLine g lineNum st = (res, st')"
  shows "(res = Inr () \<longrightarrow> modified (snd st')) \<and> (modified (snd st) \<longrightarrow> modified (snd st'))"
  using assms
  by (cases st) (auto simp: deleteLine_def Let_def split: if_splits option.splits prod.splits)

lemma replaceLine_modified:
  assumes "replaceLine lineNum tx st = (res, st')"
  shows "(res = Inr () \<longrightarrow> modified (snd st')) \<and> (modified (snd st) \<longrightarrow> modified (snd st'))"
  using assms
  by (cases st) (auto simp: replaceLine_def Let_def split: if_splits option.splits prod.splits)

lemma appendLine_modified: "modified (snd (appendLine g tx st))"
  by (cases st) (simp add: appendLine_def Let_def split: prod.splits)

lemma pasteLines_modified:
  assumes "pasteLines g lineNum block st = (res, st')"
  shows "(res = Inr () \<longrightarrow> modified (snd st')) \<and> (modified (snd st) \<longrightarrow> modified (snd st'))"
  using assms
  by (cases st) (auto simp: pasteLines_def Let_def split: if_splits option.splits prod.splits)

lemma copyLines_modified:
  assumes "copyLines start end st = (res, st')"
  shows "snd st' = snd st"
  using assms
  by (cases st) (auto simp: copyLines_def Let_def split: if_splits option.splits prod.splits)

lemma searchAndReplace_modified:
  assumes "searchAndReplace R pattern repl global st = (res, st')"
  shows "(\<forall>n. res = Inr n \<and> 0 < n \<longrightarrow> modified (snd st')) \<and> (modified (snd st) \<longrightarrow> modified (snd st'))"
  using assms
  by (cases st)
    (auto simp: searchAndReplace_def Let_def simp del: replace_loop.simps
      split: if_splits option.splits prod.splits)

lemma exec_flag:
  assumes "exec R g cmd ss = (res, ss')"
  shows "(edits cmd \<and> res = Inr Done \<longrightarrow> modified (editor ss')) \<and>
         (modified (editor ss) \<and> \<not> modified (editor ss') \<longrightarrow> cmd = Save \<and> res = Inr Done) \<and>
         (cmd = Save \<and> res = Inr Done \<longrightarrow> \<not> modified (editor ss')) \<and>
         (cmd = Save \<and> res \<noteq> Inr Done \<longrightarrow> editor ss' = editor ss \<and> store ss' = store ss)"
proof (cases cmd)
  case (Insert lineNum tx)
  obtain r st' where op: "insertLine g lineNum tx (store ss, editor ss) = (r, st')"
    by (cases "insertLine g lineNum tx (store ss, editor ss)")
  show ?thesis
    using insertLine_modified[OF op] assms op Insert
    by (auto simp: exec_def Let_def with_state_def split: sum.splits)
next
  case (Delete lineNum)
  obtain r st' where op: "deleteLine g lineNum (store ss, editor ss) = (r, st')"
    by (cases "deleteLine g lineNum (store ss, editor ss)")
  show ?thesis
    using deleteLine_modified[OF op] assms op Delete
    by (auto simp: exec_def Let_def with_state_def split: sum.splits)
next
  case (Replace lineNum tx)
  obtain r st' where op: "replaceLine lineNum tx (store ss, editor ss) = (r, st')"
    by (cases "replaceLine lineNum tx (store ss, editor ss)")
  show ?thesis
    using replaceLine_modified[OF op] assms op Replace
    by (auto simp: exec_def Let_def with_state_def split: sum.splits)
next
  case (Append tx)
  show ?thesis
    using appendLine_modified[of g tx "(store ss, editor ss)"] assms Append
    by (auto simp: exec_def Let_def with_state_def)
next
  case (Search pattern)
  obtain r st' where op: "search R pattern (store ss, editor ss) = (r, st')"
    by (cases "search R pattern (store ss, editor ss)")
  show ?thesis
    using search_step[OF op] assms op Search
    by (auto simp: exec_def Let_def with_state_def split: sum.splits)
next
  case (Substitute pattern repl)
  obtain r st' where op: "searchAndReplace R pattern repl False (store ss, editor ss) = (r, st')"
    by (cases "searchAndReplace R pattern repl False (store ss, editor ss)")
  show ?thesis
    using searchAndReplace_modified[OF op] assms op Substitute
    by (auto simp: exec_def Let_def with_state_def split: sum.splits)
next
  case (Global pattern repl)
  obtain r st' where op: "searchAndReplace R pattern repl True (store ss, editor ss) = (r, st')"
    by (cases "searchAndReplace R pattern repl True (store ss, editor ss)")
  show ?thesis
    using searchAndReplace_modified[OF op] assms op Global
    by (auto simp: exec_def Let_def with_state_def split: sum.splits)
next
  case (Copy start end')
  obtain r st' where op: "copyLines start end' (store ss, editor ss) = (r, st')"
    by (cases "copyLines start end' (store ss, editor ss)")
  show ?thesis
    using copyLines_modified[OF op] assms op Copy
    by (auto simp: exec_def Let_def with_state_def split: sum.splits)
next
  case (Paste lineNum)
  obtain r st' where op: "pasteLines g lineNum (clipboard ss) (store ss, editor ss) = (r, st')"
    by (cases "pasteLines g lineNum (clipboard ss) (store ss, editor ss)")
  show ?thesis
    using pasteLines_modified[OF op] assms op Paste
    by (auto simp: exec_def Let_def with_state_def split: sum.splits if_splits)
next
  case Save
  obtain r fs' st' where op: "save (disk ss) (store ss, editor ss) = (r, fs', st')"
    by (cases "save (disk ss) (store ss, editor ss)") auto
  show ?thesis
    using save_state[OF op] assms op Save
    by (auto simp: exec_def Let_def with_state_def split: sum.splits)
qed


text \<open>The buffer under each method: when the line sequence changes, the flag is set.\<close>

lemma insertLine_error:
  "insertLine g lineNum tx st = (Inl err, st') \<Longrightarrow> st' = st"
  by (cases st) (auto simp: insertLine_def Let_def split: if_splits option.splits prod.splits)

lemma deleteLine_error:
  "deleteLine g lineNum st = (Inl err, st') \<Longrightarrow> st' = st"
  by (cases st) (auto simp: deleteLine_def Let_def split: if_splits option.splits prod.splits)

lemma replaceLine_error:
  "replaceLine lineNum tx st = (Inl err, st') \<Longrightarrow> st' = st"
  by (cases st) (auto simp: replaceLine_def Let_def split: if_splits option.splits prod.splits)

lemma pasteLines_error:
  "pasteLines g lineNum block st = (Inl err, st') \<Longrightarrow> st' = st"
  by (cases st) (auto simp: pasteLines_def Let_def split: if_splits option.splits prod.splits)

lemma subst_lines_changed:
  "fst (subst_lines R re repl global ls) \<noteq> ls \<Longrightarrow> 0 < snd (subst_lines R re repl global ls)"
  by (induction ls) (auto simp: Let_def split: prod.splits if_splits)

lemma searchAndReplace_lines_changed:
  assumes "wf_state st" and "searchAndReplace R pattern repl global st = (res, st')"
    and "lines_of st' \<noteq> lines_of st"
  shows "modified (snd st')"
proof (cases "Compile R pattern")
  case None
  then have "st' = st" using assms(2) by (cases st) (simp add: searchAndReplace_def)
  then show ?thesis using assms(3) by simp
next
  case (Some re)
  obtain st1 where run: "searchAndReplace R pattern repl global st
                  = (Inr (snd (subst_lines R re repl global (lines_of st))), st1)"
    and l1: "lines_of st1 = fst (subst_lines R re repl global (lines_of st))"
    and m1: "modified (snd st1) \<longleftrightarrow> modified (snd st) \<or> 0 < snd (subst_lines R re repl global (lines_of st))"
    using searchAndReplace_ok[OF assms(1) Some, of repl global] by (elim exE conjE) (rule that)
  have eq: "st1 = st'" using run assms(2) by simp
  have "fst (subst_lines R re repl global (lines_of st)) \<noteq> lines_of st"
    using assms(3) l1 eq by simp
  then have "0 < snd (subst_lines R re repl global (lines_of st))"
    by (rule subst_lines_changed)
  then show ?thesis using m1 eq by simp
qed

lemma copyLines_lines:
  assumes "wf_state st" and "copyLines start end st = (res, st')"
  shows "lines_of st' = lines_of st"
proof (cases "1 \<le> start \<and> start \<le> end \<and> end \<le> int (length (lines_of st))")
  case True
  obtain c h' where op: "copyLines start end st = (Inr c, (h', snd st))"
    and fr: "\<forall>a < length (fst st). h' ! a = fst st ! a"
    using copyLines_ok[OF assms(1), of start "end"] True by auto
  have "s_arr (lines (snd st)) < length (fst st)"
    using assms(1) by (simp add: wf_state_def wf_slice_def)
  then have "h' ! s_arr (lines (snd st)) = fst st ! s_arr (lines (snd st))"
    using fr by simp
  then show ?thesis using op assms(2) by (auto simp: lines_of_def slice_val_def)
next
  case False
  then have "st' = st"
    using copyLines_invalid[of start "end" st] assms by (auto simp: length_lines_of)
  then show ?thesis by simp
qed

lemma exec_lines_changed:
  assumes "wf_session ss" and "exec R g cmd ss = (res, ss')"
    and "lines_of (store ss', editor ss') \<noteq> lines_of (store ss, editor ss)"
  shows "modified (editor ss')"
proof -
  let ?st = "(store ss, editor ss)"
  have wf: "wf_state ?st" using assms(1) by (simp add: wf_session_def)
  show ?thesis
  proof (cases cmd)
    case (Insert lineNum tx)
    obtain r st' where op: "insertLine g lineNum tx ?st = (r, st')"
      by (cases "insertLine g lineNum tx ?st")
    have s: "store ss' = fst st'" "editor ss' = snd st'"
      using assms(2) op Insert by (auto simp: exec_def Let_def with_state_def split: sum.splits)
    show ?thesis
    proof (cases r)
      case (Inl err)
      then show ?thesis using insertLine_error[of g lineNum tx ?st err st'] op assms(3) s by simp
    next
      case (Inr u)
      then show ?thesis using insertLine_modified[OF op] s by simp
    qed
  next
    case (Delete lineNum)
    obtain r st' where op: "deleteLine g lineNum ?st = (r, st')"
      by (cases "deleteLine g lineNum ?st")
    have s: "store ss' = fst st'" "editor ss' = snd st'"
      using assms(2) op Delete by (auto simp: exec_def Let_def with_state_def split: sum.splits)
    show ?thesis
    proof (cases r)
      case (Inl err)
      then show ?thesis using deleteLine_error[of g lineNum ?st err st'] op assms(3) s by simp
    next
      case (Inr u)
      then show ?thesis using deleteLine_modified[OF op] s by simp
    qed
  next
    case (Replace lineNum tx)
    obtain r st' where op: "replaceLine lineNum tx ?st = (r, st')"
      by (cases "replaceLine lineNum tx ?st")
    have s: "store ss' = fst st'" "editor ss' = snd st'"
      using assms(2) op Replace by (auto simp: exec_def Let_def with_state_def split: sum.splits)
    show ?thesis
    proof (cases r)
      case (Inl err)
      then show ?thesis using replaceLine_error[of lineNum tx ?st err st'] op assms(3) s by simp
    next
      case (Inr u)
      then show ?thesis using replaceLine_modified[OF op] s by simp
    qed
  next
    case (Append tx)
    show ?thesis
      using appendLine_modified[of g tx ?st] assms(2) Append
      by (auto simp: exec_def Let_def with_state_def)
  next
    case (Search pattern)
    obtain r st' where op: "search R pattern ?st = (r, st')"
      by (cases "search R pattern ?st")
    have "store ss' = store ss \<and> editor ss' = editor ss"
      using search_step[OF op] assms(2) op Search
      by (auto simp: exec_def Let_def with_state_def split: sum.splits)
    then show ?thesis using assms(3) by simp
  next
    case (Substitute pattern repl)
    obtain r st' where op: "searchAndReplace R pattern repl False ?st = (r, st')"
      by (cases "searchAndReplace R pattern repl False ?st")
    have s: "store ss' = fst st'" "editor ss' = snd st'"
      using assms(2) op Substitute by (auto simp: exec_def Let_def with_state_def split: sum.splits)
    have "lines_of st' \<noteq> lines_of ?st" using assms(3) s by simp
    then show ?thesis using searchAndReplace_lines_changed[OF wf op] s by simp
  next
    case (Global pattern repl)
    obtain r st' where op: "searchAndReplace R pattern repl True ?st = (r, st')"
      by (cases "searchAndReplace R pattern repl True ?st")
    have s: "store ss' = fst st'" "editor ss' = snd st'"
      using assms(2) op Global by (auto simp: exec_def Let_def with_state_def split: sum.splits)
    have "lines_of st' \<noteq> lines_of ?st" using assms(3) s by simp
    then show ?thesis using searchAndReplace_lines_changed[OF wf op] s by simp
  next
    case (Copy start end')
    obtain r st' where op: "copyLines start end' ?st = (r, st')"
      by (cases "copyLines start end' ?st")
    have s: "store ss' = fst st'" "editor ss' = snd st'"
      using assms(2) op Copy by (auto simp: exec_def Let_def with_state_def split: sum.splits)
    have "lines_of st' = lines_of ?st" using wf op by (rule copyLines_lines)
    then show ?thesis using assms(3) s by simp
  next
    case (Paste lineNum)
    show ?thesis
    proof (cases "s_len (clipboard ss) = 0")
      case True
      then have "ss' = ss" using assms(2) Paste by (simp add: exec_def Let_def)
      then show ?thesis using assms(3) by simp
    next
      case False
      obtain r st' where op: "pasteLines g lineNum (clipboard ss) ?st = (r, st')"
        by (cases "pasteLines g lineNum (clipboard ss) ?st")
      have s: "store ss' = fst st'" "editor ss' = snd st'"
        using assms(2) op Paste False by (auto simp: exec_def Let_def with_state_def split: sum.splits)
      show ?thesis
      proof (cases r)
        case (Inl err)
        then show ?thesis
          using pasteLines_error[of g lineNum "clipboard ss" ?st err st'] op assms(3) s by simp
      next
        case (Inr u)
        then show ?thesis using pasteLines_modified[OF op] s by simp
      qed
    qed
  next
    case Save
    obtain r fs' st' where op: "save (disk ss) ?st = (r, fs', st')"
      by (cases "save (disk ss) ?st") auto
    have s: "store ss' = fst st'" "editor ss' = snd st'"
      using assms(2) op Save by (auto simp: exec_def Let_def with_state_def split: sum.splits)
    have "lines_of st' = lines_of ?st"
      using save_state[OF op] by (simp add: lines_of_def)
    then show ?thesis using assms(3) s by simp
  qed
qed

text \<open>
  C3. Take any session reached by a run of commands from a well-formed one and execute
  one more command. If the command is an insert, delete, replace, append or paste and
  succeeds, the modified flag is true afterwards. Whatever the command, a substitution
  included: if the line sequence afterwards differs from the one before, the flag is true
  afterwards. If the flag was true and is false afterwards, the command was \<open>Save\<close> and
  it succeeded. A successful \<open>Save\<close> leaves the flag false, and a failed \<open>Save\<close> leaves
  the store and the editor, hence the flag, as they were.
\<close>

theorem modified_flag_discipline:
  assumes "wf_session ss0" and "ss = run R g cmds ss0" and "exec R g cmd ss = (res, ss')"
  shows "(edits cmd \<and> res = Inr Done \<longrightarrow> modified (editor ss')) \<and>
         (lines_of (store ss', editor ss') \<noteq> lines_of (store ss, editor ss) \<longrightarrow> modified (editor ss')) \<and>
         (modified (editor ss) \<and> \<not> modified (editor ss') \<longrightarrow> cmd = Save \<and> res = Inr Done) \<and>
         (cmd = Save \<and> res = Inr Done \<longrightarrow> \<not> modified (editor ss')) \<and>
         (cmd = Save \<and> res \<noteq> Inr Done \<longrightarrow> editor ss' = editor ss \<and> store ss' = store ss)"
proof -
  have wf: "wf_session ss" using assms(1,2) by (simp add: run_wf_session)
  show ?thesis
    using exec_flag[OF assms(3)] exec_lines_changed[OF wf assms(3)] by blast
qed

lemmas eval_defs = exec_def Let_def with_state_def abc_session_def abc_state_def doubling_def
  insertLine_def appendLine_def slice_expr_def slice_lit_def go_append_def write_at_def slice_val_def
  save_def os_create_def open_disk_def locked_disk_def Flush_def file_write_def
  defaultBufSize_def nil_slice_def

lemma exec_insert_example:
  "fst (exec literal_regexp doubling (Insert 1 ''x'') (abc_session open_disk)) = Inr Done"
  by (simp add: eval_defs)

lemma exec_save_example:
  "fst (exec literal_regexp doubling Save
        (run literal_regexp doubling [Insert 1 ''x''] (abc_session open_disk))) = Inr Done"
  by (simp add: eval_defs)

lemma exec_save_locked_example:
  "fst (exec literal_regexp doubling Save
        (run literal_regexp doubling [Append ''d''] (abc_session locked_disk))) = Inl CannotCreateFile"
  by (simp add: eval_defs)

lemma run_insert_example:
  "modified (editor (run literal_regexp doubling [Insert 1 ''x''] (abc_session open_disk)))"
  by (simp add: eval_defs)

lemma run_append_example:
  "modified (editor (run literal_regexp doubling [Append ''d''] (abc_session locked_disk)))"
  by (simp add: eval_defs)

lemma lines_abc_session: "lines_of (store (abc_session fs), editor (abc_session fs)) = [''a'', ''b'', ''c'']"
  by (simp add: abc_session_def lines_of_abc_state)

lemma exec_global_example:
  "lines_of (store (snd (exec literal_regexp doubling (Global ''b'' ''B'') (abc_session open_disk))),
             editor (snd (exec literal_regexp doubling (Global ''b'' ''B'') (abc_session open_disk))))
   = [''a'', ''B'', ''c'']"
  by (simp add: eval_defs searchAndReplace_def lines_of_def literal_compile_plain literal_regexp_sel)

lemma exec_substitute_example:
  "lines_of (store (snd (exec literal_regexp doubling (Substitute ''b'' ''B'') (abc_session open_disk))),
             editor (snd (exec literal_regexp doubling (Substitute ''b'' ''B'') (abc_session open_disk))))
   = [''a'', ''B'', ''c'']"
  by (simp add: eval_defs searchAndReplace_def lines_of_def literal_compile_plain literal_regexp_sel)

theorem modified_flag_discipline_witness:
  "wf_session (abc_session open_disk) \<and> wf_session (abc_session locked_disk) \<and>
   fst (exec literal_regexp doubling (Insert 1 ''x'') (abc_session open_disk)) = Inr Done \<and>
   modified (editor (snd (exec literal_regexp doubling (Insert 1 ''x'') (abc_session open_disk)))) \<and>
   lines_of (store (abc_session open_disk), editor (abc_session open_disk)) = [''a'', ''b'', ''c''] \<and>
   \<not> modified (editor (abc_session open_disk)) \<and>
   lines_of (store (snd (exec literal_regexp doubling (Global ''b'' ''B'') (abc_session open_disk))),
             editor (snd (exec literal_regexp doubling (Global ''b'' ''B'') (abc_session open_disk))))
     = [''a'', ''B'', ''c''] \<and>
   modified (editor (snd (exec literal_regexp doubling (Global ''b'' ''B'') (abc_session open_disk)))) \<and>
   lines_of (store (snd (exec literal_regexp doubling (Substitute ''b'' ''B'') (abc_session open_disk))),
             editor (snd (exec literal_regexp doubling (Substitute ''b'' ''B'') (abc_session open_disk))))
     = [''a'', ''B'', ''c''] \<and>
   modified (editor (snd (exec literal_regexp doubling (Substitute ''b'' ''B'') (abc_session open_disk)))) \<and>
   modified (editor (run literal_regexp doubling [Insert 1 ''x''] (abc_session open_disk))) \<and>
   fst (exec literal_regexp doubling Save
        (run literal_regexp doubling [Insert 1 ''x''] (abc_session open_disk))) = Inr Done \<and>
   \<not> modified (editor (snd (exec literal_regexp doubling Save
        (run literal_regexp doubling [Insert 1 ''x''] (abc_session open_disk))))) \<and>
   modified (editor (run literal_regexp doubling [Append ''d''] (abc_session locked_disk))) \<and>
   fst (exec literal_regexp doubling Save
        (run literal_regexp doubling [Append ''d''] (abc_session locked_disk))) = Inl CannotCreateFile \<and>
   modified (editor (snd (exec literal_regexp doubling Save
        (run literal_regexp doubling [Append ''d''] (abc_session locked_disk)))))"
proof -
  have wo: "wf_session (abc_session open_disk)" and wl: "wf_session (abc_session locked_disk)"
    by (rule wf_abc_session)+
  have nm: "\<not> modified (editor (abc_session open_disk))"
    by (simp add: abc_session_def abc_state_def)
  have ed: "edits (Insert 1 ''x'')" by simp
  note t1 = modified_flag_discipline[OF wo refl surjective_pairing,
      where R=literal_regexp and g=doubling and cmd="Insert 1 ''x''" and cmds="[]"]
  have a: "modified (editor (snd (exec literal_regexp doubling (Insert 1 ''x'') (abc_session open_disk))))"
    using t1[THEN conjunct1] exec_insert_example ed by (simp only: run.simps simp_thms)
  have ne: "[''a'', ''B'', ''c''] \<noteq> [''a'', ''b'', ''c'']" by simp
  note tg = modified_flag_discipline[OF wo refl surjective_pairing,
      where R=literal_regexp and g=doubling and cmd="Global ''b'' ''B''" and cmds="[]"]
  have g: "modified (editor (snd (exec literal_regexp doubling (Global ''b'' ''B'') (abc_session open_disk))))"
    using tg[THEN conjunct2, THEN conjunct1] exec_global_example lines_abc_session[of open_disk] ne
    by (simp only: run.simps simp_thms)
  note tf = modified_flag_discipline[OF wo refl surjective_pairing,
      where R=literal_regexp and g=doubling and cmd="Substitute ''b'' ''B''" and cmds="[]"]
  have f: "modified (editor (snd (exec literal_regexp doubling (Substitute ''b'' ''B'') (abc_session open_disk))))"
    using tf[THEN conjunct2, THEN conjunct1] exec_substitute_example lines_abc_session[of open_disk] ne
    by (simp only: run.simps simp_thms)
  note t2 = modified_flag_discipline[OF wo refl surjective_pairing,
      where R=literal_regexp and g=doubling and cmd=Save and cmds="[Insert 1 ''x'']"]
  have b: "\<not> modified (editor (snd (exec literal_regexp doubling Save
        (run literal_regexp doubling [Insert 1 ''x''] (abc_session open_disk)))))"
    using t2[THEN conjunct2, THEN conjunct2, THEN conjunct2, THEN conjunct1] exec_save_example
    by (simp only: simp_thms)
  note t3 = modified_flag_discipline[OF wl refl surjective_pairing,
      where R=literal_regexp and g=doubling and cmd=Save and cmds="[Append ''d'']"]
  have nd: "Inl CannotCreateFile \<noteq> (Inr Done :: error + reply)" by simp
  have c: "editor (snd (exec literal_regexp doubling Save
             (run literal_regexp doubling [Append ''d''] (abc_session locked_disk))))
        = editor (run literal_regexp doubling [Append ''d''] (abc_session locked_disk))"
    using t3[THEN conjunct2, THEN conjunct2, THEN conjunct2, THEN conjunct2] exec_save_locked_example nd
    by (simp only: simp_thms)
  have d: "modified (editor (snd (exec literal_regexp doubling Save
        (run literal_regexp doubling [Append ''d''] (abc_session locked_disk)))))"
    using c run_append_example by (simp only:)
  show ?thesis
    using wo wl nm a g f b d exec_insert_example exec_save_example exec_save_locked_example
      run_insert_example run_append_example exec_global_example exec_substitute_example
      lines_abc_session[of open_disk]
    by (simp only: simp_thms)
qed

end
